theory Spec2Isabelle
  imports Complex_Main "HOL-Library.Signed_Division"
begin

section \<open>AdaBoost.MH with decision stumps (labelmaker/src/ml/ml.go)\<close>

text \<open>
  Conventions of the embedding.
  \<^item> A \<^verbatim>\<open>float64\<close> is idealised as a \<^typ>\<open>real\<close>: rounding and overflow are not
    modelled. An operation whose IEEE result is not a real number (a division by
    zero, the logarithm of a non-positive number, the square root of a negative
    number: Go yields an infinity or NaN and goes on) is reported as a value of
    \<open>error\<close> at the place where it is performed, so that HOL's \<open>x / 0 = 0\<close>
    never stands in for it. A second embedding of \<^verbatim>\<open>NewStump\<close> and \<^verbatim>\<open>Round\<close>, further
    down, carries the infinities and NaN through instead.
  \<^item> A run-time panic of Go (the explicit \<^verbatim>\<open>panic\<close> of \<^verbatim>\<open>search\<close>, an index out of
    range, a nil dereference) is a value of \<open>error\<close> as well.
  \<^item> A call that recurses for ever is the value \<open>None\<close> of a
    \<^theory_text>\<open>partial_function (option)\<close>.
  \<^item> The methods of the interfaces \<^verbatim>\<open>Example\<close> and \<^verbatim>\<open>Feature\<close> are pure functions.
  \<^item> Where Go leaves open which of two panics of one statement comes first, the
    model fixes an order; no theorem depends on the order chosen.
\<close>

datatype error =
    InvariantViolation    \<comment> \<open>panic("Search did not find a valid index. ...")\<close>
  | IndexOutOfRange       \<comment> \<open>runtime panic: index out of range\<close>
  | NilDereference        \<comment> \<open>runtime panic: nil pointer dereference\<close>
  | DivisionByZero        \<comment> \<open>float64 division by 0.0\<close>
  | LogOfNonPositive      \<comment> \<open>math.Log of an argument \<open>\<le> 0\<close>\<close>
  | SqrtOfNegative        \<comment> \<open>math.Sqrt of an argument \<open>< 0\<close>\<close>

subsection \<open>Distribution\<close>

record Distribution =
  P :: "real list"

text \<open>\<^verbatim>\<open>UniformDistribution(nitems)\<close>: the loop body (the only division) runs
  \<open>nitems\<close> times, so no division is performed for \<open>nitems = 0\<close>. The only caller
  passes the length of a slice, hence a natural number.\<close>

definition UniformDistribution :: "nat \<Rightarrow> Distribution" where
  "UniformDistribution nitems = \<lparr>P = replicate nitems (1 / real nitems)\<rparr>"

text \<open>The indexing expression \<^verbatim>\<open>xs[i]\<close> of a slice with an \<^verbatim>\<open>int\<close> index.\<close>

definition index :: "real list \<Rightarrow> int \<Rightarrow> error + real" where
  "index xs i =
     (if 0 \<le> i \<and> i < int (length xs) then Inr (xs ! nat i) else Inl IndexOutOfRange)"

text \<open>
  \<^verbatim>\<open>search(s, cumulative, startInclusive, endExclusive)\<close>. The condition of the
  panic, \<^verbatim>\<open>!(s <= cumulative[0] && (startInclusive == 0 || cumulative[startInclusive-1] < s))\<close>,
  is evaluated left to right with short-circuiting; \<^verbatim>\<open>/\<close> on \<^verbatim>\<open>int\<close> truncates
  towards zero (\<open>sdiv\<close>). Indices are unbounded integers: the 64-bit wrap-around
  cannot occur for bounds between 0 and the length of a slice.
\<close>

partial_function (option) search :: "real \<Rightarrow> real list \<Rightarrow> int \<Rightarrow> int \<Rightarrow> (error + int) option" where
  "search s cumulative startInclusive endExclusive =
     (if startInclusive = endExclusive then
        (case index cumulative 0 of
           Inl e \<Rightarrow> Some (Inl e)
         | Inr c0 \<Rightarrow>
             if s \<le> c0 then
               (if startInclusive = 0 then Some (Inr startInclusive)
                else
                  (case index cumulative (startInclusive - 1) of
                     Inl e \<Rightarrow> Some (Inl e)
                   | Inr cp \<Rightarrow>
                       if cp < s then Some (Inr startInclusive)
                       else Some (Inl InvariantViolation)))
             else Some (Inl InvariantViolation))
      else
        (let mid = startInclusive + (endExclusive - startInclusive) sdiv 2 in
           (case index cumulative mid of
              Inl e \<Rightarrow> Some (Inl e)
            | Inr cm \<Rightarrow>
                if s < cm then search s cumulative startInclusive mid
                else search s cumulative mid endExclusive)))"

text \<open>The prefix sums that \<^verbatim>\<open>Sample\<close> writes into \<^verbatim>\<open>cumulative\<close>, with the running
  \<^verbatim>\<open>sum\<close> as accumulator.\<close>

fun cumulate :: "real \<Rightarrow> real list \<Rightarrow> real list" where
  "cumulate sum_acc [] = []"
| "cumulate sum_acc (p # ps) = (sum_acc + p) # cumulate (sum_acc + p) ps"

text \<open>\<^verbatim>\<open>dist.Sample(r)\<close>, with the draw \<^verbatim>\<open>r.Float64()\<close> as the argument \<open>draw\<close>.\<close>

definition Sample :: "Distribution \<Rightarrow> real \<Rightarrow> (error + int) option" where
  "Sample distribution draw =
     (let cumulative = cumulate 0 (P distribution)
      in search draw cumulative 0 (int (length cumulative)))"

subsection \<open>Examples, features and decision stumps\<close>

type_synonym Label = string

text \<open>The interfaces \<^verbatim>\<open>Example\<close> and \<^verbatim>\<open>Feature\<close> are records of their methods. A slice
  of examples or features holds values of these types, so a nil interface value
  inside a slice is outside the model; the nil \<^verbatim>\<open>Feature\<close> that \<^verbatim>\<open>NewStump\<close> itself
  can produce is \<open>None\<close>.\<close>

record Example =
  Labels :: "Label list"
  HasLabel :: "Label \<Rightarrow> bool"

record Feature =
  String :: string
  Test :: "Example \<Rightarrow> bool"

text \<open>Reading a Go map at a missing key yields the zero value.\<close>

definition lookup :: "('k \<rightharpoonup> real) \<Rightarrow> 'k \<Rightarrow> real" where
  "lookup m k = (case m k of None \<Rightarrow> 0 | Some v \<Rightarrow> v)"

record DecisionStump =
  Feature :: "Feature option"
  c :: "Label \<rightharpoonup> real"
  zt :: real

text \<open>\<^verbatim>\<open>(d *DecisionStump) Predict(e, l)\<close>: calling \<^verbatim>\<open>Test\<close> on a nil \<^verbatim>\<open>Feature\<close> panics.\<close>

definition DecisionStump_Predict :: "DecisionStump \<Rightarrow> Example \<Rightarrow> Label \<Rightarrow> error + real" where
  "DecisionStump_Predict d e l =
     (case Feature d of
        None \<Rightarrow> Inl NilDereference
      | Some f \<Rightarrow> if \<not> Test f e then Inr (- 1) else Inr (lookup (c d) l))"

text \<open>The field \<^verbatim>\<open>labels map[Label]bool\<close> is used as a set of keys only: every loop
  ranges over its keys and ignores the values. It is the list of its keys in the
  order of iteration, which Go leaves unspecified; the keys of a map are pairwise
  distinct, which \<open>distinct (labels stumper)\<close> says where a theorem needs it.\<close>

record DecisionStumper =
  labels :: "Label list"
  features :: "Feature list"
  examples :: "Example list"

definition add_label :: "Label \<Rightarrow> Label list \<Rightarrow> Label list" where
  "add_label l ls = (if l \<in> set ls then ls else ls @ [l])"

fun collect_labels :: "Example list \<Rightarrow> Label list \<Rightarrow> Label list" where
  "collect_labels [] ls = ls"
| "collect_labels (e # es) ls = collect_labels es (foldl (\<lambda>acc l. add_label l acc) ls (Labels e))"

definition NewDecisionStumper :: "Feature list \<Rightarrow> Example list \<Rightarrow> DecisionStumper" where
  "NewDecisionStumper fs es = \<lparr>labels = collect_labels es [], features = fs, examples = es\<rparr>"

subsection \<open>The store of distributions\<close>

text \<open>The orchestrator and \<^verbatim>\<open>NewStump\<close> hold \<^verbatim>\<open>map[Label]*Distribution\<close>: pointers to
  distributions that \<^verbatim>\<open>Round\<close> mutates in place. A pointer is an address of the
  store, nil (or a missing key, which reads as nil) is \<open>None\<close>; allocation takes the
  next free address.\<close>

type_synonym addr = nat

record heap =
  cells :: "addr \<Rightarrow> Distribution"
  next_free :: addr

definition alloc :: "Distribution \<Rightarrow> heap \<Rightarrow> addr \<times> heap" where
  "alloc v hp =
     (next_free hp, hp\<lparr>cells := (cells hp)(next_free hp := v), next_free := Suc (next_free hp)\<rparr>)"

subsection \<open>NewStump\<close>

text \<open>The struct \<^verbatim>\<open>key{b, f, l}\<close>; its field \<^verbatim>\<open>f\<close> is an interface value and may be nil.
  Features are taken to be of a comparable dynamic type, as a key of a Go map must
  be. Two features that are equal in the model test alike, so they share the
  entries of \<^verbatim>\<open>w\<close> that each pass over a feature first resets and then recomputes.\<close>

datatype key = Key bool "Feature option" Label

type_synonym wmap = "key \<rightharpoonup> real"

text \<open>\<^verbatim>\<open>for label := range labels { w[key{true, feature, label}] = 0.0; w[key{false, feature, label}] = 0.0 }\<close>\<close>

fun init_w :: "Feature \<Rightarrow> Label list \<Rightarrow> wmap \<Rightarrow> wmap" where
  "init_w feature [] w = w"
| "init_w feature (label # ls) w =
     init_w feature ls (w(Key True (Some feature) label \<mapsto> 0, Key False (Some feature) label \<mapsto> 0))"

text \<open>\<^verbatim>\<open>for label := range labels { b := example.HasLabel(label); w[key{b, feature, label}] += ds[label].P[i] }\<close>\<close>

fun add_w_labels ::
  "heap \<Rightarrow> (Label \<rightharpoonup> addr) \<Rightarrow> Feature \<Rightarrow> nat \<Rightarrow> Example \<Rightarrow> Label list \<Rightarrow> wmap \<Rightarrow> error + wmap" where
  "add_w_labels hp ds feature i example [] w = Inr w"
| "add_w_labels hp ds feature i example (label # ls) w =
     (case ds label of
        None \<Rightarrow> Inl NilDereference
      | Some p \<Rightarrow>
          (case index (P (cells hp p)) (int i) of
             Inl err \<Rightarrow> Inl err
           | Inr d \<Rightarrow>
               add_w_labels hp ds feature i example ls
                 (w(Key (HasLabel example label) (Some feature) label \<mapsto>
                      lookup w (Key (HasLabel example label) (Some feature) label) + d))))"

text \<open>\<^verbatim>\<open>for i, example := range examples { if !feature.Test(example) { continue }; ... }\<close>,
  from index \<open>i\<close> on.\<close>

fun add_w_examples ::
  "heap \<Rightarrow> (Label \<rightharpoonup> addr) \<Rightarrow> Feature \<Rightarrow> Label list \<Rightarrow> nat \<Rightarrow> Example list \<Rightarrow> wmap \<Rightarrow> error + wmap" where
  "add_w_examples hp ds feature ls i [] w = Inr w"
| "add_w_examples hp ds feature ls i (example # es) w =
     (if \<not> Test feature example then add_w_examples hp ds feature ls (Suc i) es w
      else
        (case add_w_labels hp ds feature i example ls w of
           Inl err \<Rightarrow> Inl err
         | Inr w' \<Rightarrow> add_w_examples hp ds feature ls (Suc i) es w'))"

text \<open>The first loop over the features: it computes \<^verbatim>\<open>w\<close>.\<close>

fun compute_w ::
  "heap \<Rightarrow> (Label \<rightharpoonup> addr) \<Rightarrow> Label list \<Rightarrow> Example list \<Rightarrow> Feature list \<Rightarrow> wmap \<Rightarrow> error + wmap" where
  "compute_w hp ds ls es [] w = Inr w"
| "compute_w hp ds ls es (feature # fs) w =
     (case add_w_examples hp ds feature ls 0 es (init_w feature ls w) of
        Inl err \<Rightarrow> Inl err
      | Inr w' \<Rightarrow> compute_w hp ds ls es fs w')"

text \<open>\<^verbatim>\<open>math.MaxFloat64\<close>, the largest finite \<^verbatim>\<open>float64\<close>.\<close>

definition MaxFloat64 :: real where
  "MaxFloat64 = (2 - 1 / 2 ^ 52) * 2 ^ 1023"

text \<open>\<^verbatim>\<open>for label := range labels { zFeature += math.Sqrt(w[key{true, feature, label}] * w[key{false, feature, label}]) }\<close>\<close>

fun sum_zFeature :: "wmap \<Rightarrow> Feature \<Rightarrow> Label list \<Rightarrow> real \<Rightarrow> error + real" where
  "sum_zFeature w feature [] zFeature = Inr zFeature"
| "sum_zFeature w feature (label # ls) zFeature =
     (let x = lookup w (Key True (Some feature) label) * lookup w (Key False (Some feature) label)
      in if x < 0 then Inl SqrtOfNegative
         else sum_zFeature w feature ls (zFeature + sqrt x))"

text \<open>The second loop over the features, on the variables \<^verbatim>\<open>fMin\<close>, \<^verbatim>\<open>zMin\<close> and
  \<^verbatim>\<open>zt\<close>.\<close>

fun select_feature ::
  "wmap \<Rightarrow> Label list \<Rightarrow> Feature list \<Rightarrow> Feature option \<times> real \<times> real \<Rightarrow>
   error + (Feature option \<times> real \<times> real)" where
  "select_feature w ls [] (fMin, zMin, z) = Inr (fMin, zMin, z)"
| "select_feature w ls (feature # fs) (fMin, zMin, z) =
     (case sum_zFeature w feature ls 0 of
        Inl err \<Rightarrow> Inl err
      | Inr zFeature \<Rightarrow>
          if zFeature < zMin then select_feature w ls fs (Some feature, zFeature, z + zFeature)
          else select_feature w ls fs (fMin, zMin, z + zFeature))"

text \<open>\<^verbatim>\<open>for label := range labels { c[label] = 0.5 * math.Log((1.0+w[key{true, fMin, label}])/(1.0+w[key{false, fMin, label}])) }\<close>\<close>

fun confidences :: "wmap \<Rightarrow> Feature option \<Rightarrow> Label list \<Rightarrow> (Label \<rightharpoonup> real) \<Rightarrow> error + (Label \<rightharpoonup> real)" where
  "confidences w fMin [] cs = Inr cs"
| "confidences w fMin (label # ls) cs =
     (let num = 1 + lookup w (Key True fMin label);
          den = 1 + lookup w (Key False fMin label)
      in if den = 0 then Inl DivisionByZero
         else if num / den \<le> 0 then Inl LogOfNonPositive
         else confidences w fMin ls (cs(label \<mapsto> 0.5 * ln (num / den))))"

definition NewStump :: "DecisionStumper \<Rightarrow> heap \<Rightarrow> (Label \<rightharpoonup> addr) \<Rightarrow> error + DecisionStump" where
  "NewStump stumper hp ds =
     (case compute_w hp ds (labels stumper) (examples stumper) (features stumper) Map.empty of
        Inl err \<Rightarrow> Inl err
      | Inr w \<Rightarrow>
          (case select_feature w (labels stumper) (features stumper) (None, MaxFloat64, 0) of
             Inl err \<Rightarrow> Inl err
           | Inr (fMin, zMin, z) \<Rightarrow>
               (case confidences w fMin (labels stumper) Map.empty of
                  Inl err \<Rightarrow> Inl err
                | Inr cs \<Rightarrow> Inr \<lparr>Feature = fMin, c = cs, zt = z * 2\<rparr>)))"

subsection \<open>AdaBoostMH\<close>

text \<open>The stumper behind the pointer \<^verbatim>\<open>Stumper\<close> and the stumps behind the pointers of
  \<^verbatim>\<open>H\<close> are never written after their construction, so they are held by value.\<close>

record AdaBoostMH =
  Examples :: "Example list"
  Stumper :: DecisionStumper
  D :: "Label \<rightharpoonup> addr"
  H :: "DecisionStump list"

text \<open>\<^verbatim>\<open>for label := range learner.labels { dist[label] = UniformDistribution(len(es)) }\<close>\<close>

fun alloc_uniform :: "nat \<Rightarrow> Label list \<Rightarrow> (Label \<rightharpoonup> addr) \<times> heap \<Rightarrow> (Label \<rightharpoonup> addr) \<times> heap" where
  "alloc_uniform n [] (dm, hp) = (dm, hp)"
| "alloc_uniform n (label # ls) (dm, hp) =
     (case alloc (UniformDistribution n) hp of
        (p, hp') \<Rightarrow> alloc_uniform n ls (dm(label \<mapsto> p), hp'))"

definition NewAdaBoostMH :: "heap \<Rightarrow> Example list \<Rightarrow> DecisionStumper \<Rightarrow> AdaBoostMH \<times> heap" where
  "NewAdaBoostMH hp es learner =
     (case alloc_uniform (length es) (labels learner) (Map.empty, hp) of
        (dm, hp') \<Rightarrow> (\<lparr>Examples = es, Stumper = learner, D = dm, H = []\<rparr>, hp'))"

definition hasLabel :: "Example \<Rightarrow> Label \<Rightarrow> real" where
  "hasLabel e l = (if HasLabel e l then 1 else - 1)"

text \<open>\<^verbatim>\<open>for i, example := range a.Examples { a.D[label].P[i] *= math.Exp(hasLabel(example, label)*h.Predict(example, label)) / h.zt }\<close>,
  from index \<open>i\<close> on.\<close>

fun reweight_examples ::
  "DecisionStump \<Rightarrow> (Label \<rightharpoonup> addr) \<Rightarrow> Label \<Rightarrow> nat \<Rightarrow> Example list \<Rightarrow> heap \<Rightarrow> error + heap" where
  "reweight_examples h dm label i [] hp = Inr hp"
| "reweight_examples h dm label i (example # es) hp =
     (case dm label of
        None \<Rightarrow> Inl NilDereference
      | Some p \<Rightarrow>
          (case index (P (cells hp p)) (int i) of
             Inl err \<Rightarrow> Inl err
           | Inr d \<Rightarrow>
               (case DecisionStump_Predict h example label of
                  Inl err \<Rightarrow> Inl err
                | Inr v \<Rightarrow>
                    if zt h = 0 then Inl DivisionByZero
                    else
                      reweight_examples h dm label (Suc i) es
                        (hp\<lparr>cells := (cells hp)
                           (p := (cells hp p)\<lparr>P := (P (cells hp p))
                              [i := d * (exp (hasLabel example label * v) / zt h)]\<rparr>)\<rparr>))))"

fun reweight_labels ::
  "DecisionStump \<Rightarrow> (Label \<rightharpoonup> addr) \<Rightarrow> Example list \<Rightarrow> Label list \<Rightarrow> heap \<Rightarrow> error + heap" where
  "reweight_labels h dm es [] hp = Inr hp"
| "reweight_labels h dm es (label # ls) hp =
     (case reweight_examples h dm label 0 es hp of
        Inl err \<Rightarrow> Inl err
      | Inr hp' \<Rightarrow> reweight_labels h dm es ls hp')"

definition Round :: "heap \<Rightarrow> AdaBoostMH \<Rightarrow> error + (AdaBoostMH \<times> heap)" where
  "Round hp a =
     (case NewStump (Stumper a) hp (D a) of
        Inl err \<Rightarrow> Inl err
      | Inr h \<Rightarrow>
          (case reweight_labels h (D a) (Examples a) (labels (Stumper a)) hp of
             Inl err \<Rightarrow> Inl err
           | Inr hp' \<Rightarrow> Inr (a\<lparr>H := H a @ [h]\<rparr>, hp')))"

text \<open>\<^verbatim>\<open>(a *AdaBoostMH) Predict(e, l)\<close>: the loop over \<^verbatim>\<open>a.H\<close> with the running \<^verbatim>\<open>sum\<close>.\<close>

fun sum_Predict :: "DecisionStump list \<Rightarrow> Example \<Rightarrow> Label \<Rightarrow> real \<Rightarrow> error + real" where
  "sum_Predict [] e l sum_acc = Inr sum_acc"
| "sum_Predict (h # hs) e l sum_acc =
     (case DecisionStump_Predict h e l of
        Inl err \<Rightarrow> Inl err
      | Inr v \<Rightarrow> sum_Predict hs e l (sum_acc + v))"

definition AdaBoostMH_Predict :: "AdaBoostMH \<Rightarrow> Example \<Rightarrow> Label \<Rightarrow> error + real" where
  "AdaBoostMH_Predict a e l = sum_Predict (H a) e l 0"

text \<open>\<^verbatim>\<open>(a *AdaBoostMH) Evaluate(test)\<close>: the counter \<^verbatim>\<open>dist\<close> only grows from 0, so it
  is a natural number. In \<^verbatim>\<open>a.Predict(example, label) > 0.0 && example.HasLabel(label)\<close>
  the call of \<^verbatim>\<open>Predict\<close> comes first and is always made.\<close>

fun Evaluate_labels :: "AdaBoostMH \<Rightarrow> Example \<Rightarrow> Label list \<Rightarrow> nat \<Rightarrow> error + nat" where
  "Evaluate_labels a example [] n = Inr n"
| "Evaluate_labels a example (label # ls) n =
     (case AdaBoostMH_Predict a example label of
        Inl err \<Rightarrow> Inl err
      | Inr v \<Rightarrow>
          if v > 0 \<and> HasLabel example label then Evaluate_labels a example ls n
          else Evaluate_labels a example ls (n + 1))"

fun Evaluate_examples :: "AdaBoostMH \<Rightarrow> Example list \<Rightarrow> nat \<Rightarrow> error + nat" where
  "Evaluate_examples a [] n = Inr n"
| "Evaluate_examples a (example # es) n =
     (case Evaluate_labels a example (labels (Stumper a)) n of
        Inl err \<Rightarrow> Inl err
      | Inr n' \<Rightarrow> Evaluate_examples a es n')"

definition Evaluate :: "AdaBoostMH \<Rightarrow> Example list \<Rightarrow> error + nat" where
  "Evaluate a test = Evaluate_examples a test 0"

subsection \<open>Reference definitions\<close>

text \<open>The sign of the summed prediction: positive means that the label is predicted
  present, non-positive that it is predicted absent.\<close>

definition predicts_present :: "AdaBoostMH \<Rightarrow> Example \<Rightarrow> Label \<Rightarrow> bool" where
  "predicts_present a e l =
     (case AdaBoostMH_Predict a e l of
        Inl err \<Rightarrow> False
      | Inr v \<Rightarrow> v > 0)"

text \<open>The Hamming distance over the example \<open>\<times>\<close> label matrix, as the comment on
  \<^verbatim>\<open>Evaluate\<close> names it: the number of pairs of a test example and a known label on
  which the predicted presence disagrees with the example's membership of the label.\<close>

definition disagrees :: "AdaBoostMH \<Rightarrow> Example \<Rightarrow> Label \<Rightarrow> bool" where
  "disagrees a e l = (predicts_present a e l \<noteq> HasLabel e l)"

definition Hamming :: "AdaBoostMH \<Rightarrow> Example list \<Rightarrow> nat" where
  "Hamming a test = (\<Sum>e\<leftarrow>test. length (filter (disagrees a e) (labels (Stumper a))))"

subsection \<open>The weighted sums of the weak-learner search\<close>

text \<open>The weight \<open>D\<^sub>l[i]\<close> that the distribution of label \<open>l\<close> gives to example \<open>i\<close>.\<close>

definition weight :: "heap \<Rightarrow> (Label \<rightharpoonup> addr) \<Rightarrow> Label \<Rightarrow> nat \<Rightarrow> real" where
  "weight hp ds l i = (case ds l of None \<Rightarrow> 0 | Some p \<Rightarrow> P (cells hp p) ! i)"

text \<open>\<open>W True\<close> is \<open>W+[f,l]\<close>, the sum of the weights of label \<open>l\<close> over the examples
  that satisfy \<open>f\<close> and carry \<open>l\<close>; \<open>W False\<close> is \<open>W-[f,l]\<close>, the sum over the examples
  that satisfy \<open>f\<close> and do not carry \<open>l\<close>. An example on which \<open>f\<close> tests false is in
  neither sum.\<close>

definition W :: "bool \<Rightarrow> DecisionStumper \<Rightarrow> heap \<Rightarrow> (Label \<rightharpoonup> addr) \<Rightarrow> Feature \<Rightarrow> Label \<Rightarrow> real" where
  "W b stumper hp ds f l =
     (\<Sum>i\<leftarrow>filter (\<lambda>i. Test f (examples stumper ! i) \<and> HasLabel (examples stumper ! i) l = b)
           [0..<length (examples stumper)].
        weight hp ds l i)"

text \<open>The score \<open>Zf\<close> of a feature.\<close>

definition Zf :: "DecisionStumper \<Rightarrow> heap \<Rightarrow> (Label \<rightharpoonup> addr) \<Rightarrow> Feature \<Rightarrow> real" where
  "Zf stumper hp ds f =
     (\<Sum>l\<leftarrow>labels stumper. sqrt (W True stumper hp ds f l * W False stumper hp ds f l))"

text \<open>Every label of \<open>ls\<close> has a distribution with at least \<open>n\<close> weights, the first
  \<open>n\<close> of them non-negative.\<close>

definition weights_ok :: "heap \<Rightarrow> (Label \<rightharpoonup> addr) \<Rightarrow> Label list \<Rightarrow> nat \<Rightarrow> bool" where
  "weights_ok hp ds ls n =
     list_all (\<lambda>l. case ds l of
                     None \<Rightarrow> False
                   | Some p \<Rightarrow> n \<le> length (P (cells hp p)) \<and>
                       list_all (\<lambda>x. 0 \<le> x) (take n (P (cells hp p)))) ls"

text \<open>The sum that one pass of \<open>add_w_examples\<close> adds to an entry of \<open>w\<close>, by recursion
  over the examples from index \<open>i\<close> on.\<close>

fun W_from :: "(nat \<Rightarrow> real) \<Rightarrow> (Example \<Rightarrow> bool) \<Rightarrow> nat \<Rightarrow> Example list \<Rightarrow> real" where
  "W_from wt sel i [] = 0"
| "W_from wt sel i (e # es) = (if sel e then wt i else 0) + W_from wt sel (Suc i) es"

subsection \<open>Concrete inputs\<close>

definition example_A :: Example where
  "example_A = \<lparr>Labels = [''A''], HasLabel = (\<lambda>l. l = ''A'')\<rparr>"

definition example_unlabelled :: Example where
  "example_unlabelled = \<lparr>Labels = [], HasLabel = (\<lambda>l. False)\<rparr>"

definition feature_always :: Feature where
  "feature_always = \<lparr>String = ''always'', Test = (\<lambda>e. True)\<rparr>"

definition empty_heap :: heap where
  "empty_heap = \<lparr>cells = (\<lambda>p. \<lparr>P = []\<rparr>), next_free = 0\<rparr>"

text \<open>One training example carrying the label A, one feature that is true of it.\<close>

definition stumper_A :: DecisionStumper where
  "stumper_A = NewDecisionStumper [feature_always] [example_A]"

definition untrained_A :: AdaBoostMH where
  "untrained_A = fst (NewAdaBoostMH empty_heap [example_A] stumper_A)"

definition feature_has_A :: Feature where
  "feature_has_A = \<lparr>String = ''has A'', Test = (\<lambda>e. HasLabel e ''A'')\<rparr>"

text \<open>Two training examples, the first carrying the label A and the second no label;
  one feature true of both and one true of the first only.\<close>

definition stumper_AU :: DecisionStumper where
  "stumper_AU = NewDecisionStumper [feature_always, feature_has_A] [example_A, example_unlabelled]"

definition untrained_AU :: AdaBoostMH where
  "untrained_AU = fst (NewAdaBoostMH empty_heap [example_A, example_unlabelled] stumper_AU)"

definition heap_AU :: heap where
  "heap_AU = snd (NewAdaBoostMH empty_heap [example_A, example_unlabelled] stumper_AU)"

definition heap_A :: heap where
  "heap_A = snd (NewAdaBoostMH empty_heap [example_A] stumper_A)"

section \<open>The same code with IEEE's infinities and NaN\<close>

text \<open>
  The embedding above stops at the first operation whose result is not a real number;
  it serves the claims about which operations are well-defined. The code itself goes
  on: a division by zero stores an infinity or NaN in a distribution, the round
  completes and the next round computes with these values. The second embedding
  below carries the special values of a \<^verbatim>\<open>float64\<close> through every operation of
  \<^verbatim>\<open>NewStump\<close> and \<^verbatim>\<open>Round\<close>, so that it returns wherever the code does, and fails
  only where the code panics. A finite \<^verbatim>\<open>float64\<close> is still an exact real: rounding and
  overflow are not modelled. The sign of a zero is not modelled either; every zero
  that this code divides by, \<^verbatim>\<open>zt\<close> and \<^verbatim>\<open>1.0+w[...]\<close>, is the result of an addition
  and hence \<open>+0.0\<close>, and the division rules below are those of \<open>+0.0\<close>.
\<close>

datatype float64 = Finite real | PosInf | NegInf | NaN

text \<open>\<^verbatim>\<open>x + y\<close>\<close>

fun fadd :: "float64 \<Rightarrow> float64 \<Rightarrow> float64" where
  "fadd NaN y = NaN"
| "fadd x NaN = NaN"
| "fadd (Finite x) (Finite y) = Finite (x + y)"
| "fadd PosInf NegInf = NaN"
| "fadd NegInf PosInf = NaN"
| "fadd PosInf y = PosInf"
| "fadd x PosInf = PosInf"
| "fadd NegInf y = NegInf"
| "fadd x NegInf = NegInf"

text \<open>An infinity with the sign of a non-zero real.\<close>

definition inf_of_sign :: "real \<Rightarrow> float64" where
  "inf_of_sign x = (if 0 < x then PosInf else NegInf)"

text \<open>\<^verbatim>\<open>x * y\<close>: an infinity times zero is NaN.\<close>

fun fmul :: "float64 \<Rightarrow> float64 \<Rightarrow> float64" where
  "fmul NaN y = NaN"
| "fmul x NaN = NaN"
| "fmul (Finite x) (Finite y) = Finite (x * y)"
| "fmul (Finite x) PosInf = (if x = 0 then NaN else inf_of_sign x)"
| "fmul (Finite x) NegInf = (if x = 0 then NaN else inf_of_sign (- x))"
| "fmul PosInf (Finite y) = (if y = 0 then NaN else inf_of_sign y)"
| "fmul NegInf (Finite y) = (if y = 0 then NaN else inf_of_sign (- y))"
| "fmul PosInf PosInf = PosInf"
| "fmul NegInf NegInf = PosInf"
| "fmul PosInf NegInf = NegInf"
| "fmul NegInf PosInf = NegInf"

text \<open>\<^verbatim>\<open>x / y\<close>: a non-zero number divided by \<open>+0.0\<close> is the infinity of its sign, zero
  divided by zero and an infinity divided by an infinity are NaN, a finite number
  divided by an infinity is zero.\<close>

fun fdiv :: "float64 \<Rightarrow> float64 \<Rightarrow> float64" where
  "fdiv NaN y = NaN"
| "fdiv x NaN = NaN"
| "fdiv (Finite x) (Finite y) =
     (if y = 0 then (if x = 0 then NaN else inf_of_sign x) else Finite (x / y))"
| "fdiv (Finite x) PosInf = Finite 0"
| "fdiv (Finite x) NegInf = Finite 0"
| "fdiv PosInf (Finite y) = (if 0 \<le> y then PosInf else NegInf)"
| "fdiv NegInf (Finite y) = (if 0 \<le> y then NegInf else PosInf)"
| "fdiv PosInf PosInf = NaN"
| "fdiv PosInf NegInf = NaN"
| "fdiv NegInf PosInf = NaN"
| "fdiv NegInf NegInf = NaN"

text \<open>\<^verbatim>\<open>math.Sqrt\<close>, \<^verbatim>\<open>math.Log\<close> and \<^verbatim>\<open>math.Exp\<close> with their special cases.\<close>

fun fsqrt :: "float64 \<Rightarrow> float64" where
  "fsqrt (Finite x) = (if x < 0 then NaN else Finite (sqrt x))"
| "fsqrt PosInf = PosInf"
| "fsqrt NegInf = NaN"
| "fsqrt NaN = NaN"

fun flog :: "float64 \<Rightarrow> float64" where
  "flog (Finite x) = (if x < 0 then NaN else if x = 0 then NegInf else Finite (ln x))"
| "flog PosInf = PosInf"
| "flog NegInf = NaN"
| "flog NaN = NaN"

fun fexp :: "float64 \<Rightarrow> float64" where
  "fexp (Finite x) = Finite (exp x)"
| "fexp PosInf = PosInf"
| "fexp NegInf = Finite 0"
| "fexp NaN = NaN"

text \<open>\<^verbatim>\<open>x < y\<close>: false when either side is NaN.\<close>

fun fless :: "float64 \<Rightarrow> float64 \<Rightarrow> bool" where
  "fless NaN y = False"
| "fless x NaN = False"
| "fless (Finite x) (Finite y) = (x < y)"
| "fless x NegInf = False"
| "fless PosInf y = False"
| "fless NegInf y = True"
| "fless x PosInf = True"

subsection \<open>Distributions, stumps and the store\<close>

record Distribution64 =
  P64 :: "float64 list"

definition UniformDistribution64 :: "nat \<Rightarrow> Distribution64" where
  "UniformDistribution64 nitems = \<lparr>P64 = replicate nitems (fdiv (Finite 1) (Finite (real nitems)))\<rparr>"

definition index64 :: "float64 list \<Rightarrow> int \<Rightarrow> error + float64" where
  "index64 xs i =
     (if 0 \<le> i \<and> i < int (length xs) then Inr (xs ! nat i) else Inl IndexOutOfRange)"

definition lookup64 :: "('k \<rightharpoonup> float64) \<Rightarrow> 'k \<Rightarrow> float64" where
  "lookup64 m k = (case m k of None \<Rightarrow> Finite 0 | Some v \<Rightarrow> v)"

record DecisionStump64 =
  Feature64 :: "Feature option"
  c64 :: "Label \<rightharpoonup> float64"
  zt64 :: float64

definition DecisionStump_Predict64 :: "DecisionStump64 \<Rightarrow> Example \<Rightarrow> Label \<Rightarrow> error + float64" where
  "DecisionStump_Predict64 d e l =
     (case Feature64 d of
        None \<Rightarrow> Inl NilDereference
      | Some f \<Rightarrow> if \<not> Test f e then Inr (Finite (- 1)) else Inr (lookup64 (c64 d) l))"

record heap64 =
  cells64 :: "addr \<Rightarrow> Distribution64"
  next_free64 :: addr

definition alloc64 :: "Distribution64 \<Rightarrow> heap64 \<Rightarrow> addr \<times> heap64" where
  "alloc64 v hp =
     (next_free64 hp,
      hp\<lparr>cells64 := (cells64 hp)(next_free64 hp := v), next_free64 := Suc (next_free64 hp)\<rparr>)"

subsection \<open>NewStump\<close>

text \<open>The loops of \<^verbatim>\<open>NewStump\<close>, statement by statement as in the first embedding, on
  \<^verbatim>\<open>float64\<close> values: \<^verbatim>\<open>w[k] = 0.0\<close>, \<^verbatim>\<open>w[k] += ds[label].P[i]\<close>,
  \<^verbatim>\<open>zFeature += math.Sqrt(w[k1] * w[k2])\<close>, \<^verbatim>\<open>if zFeature < zMin\<close>, \<^verbatim>\<open>zt += zFeature\<close>,
  \<^verbatim>\<open>zt *= 2.0\<close> and \<^verbatim>\<open>c[label] = 0.5 * math.Log((1.0+w[k1])/(1.0+w[k2]))\<close>. Only the
  reads \<^verbatim>\<open>ds[label].P[i]\<close> can panic.\<close>

type_synonym wmap64 = "key \<rightharpoonup> float64"

fun init_w64 :: "Feature \<Rightarrow> Label list \<Rightarrow> wmap64 \<Rightarrow> wmap64" where
  "init_w64 feature [] w = w"
| "init_w64 feature (label # ls) w =
     init_w64 feature ls
       (w(Key True (Some feature) label \<mapsto> Finite 0, Key False (Some feature) label \<mapsto> Finite 0))"

fun add_w_labels64 ::
  "heap64 \<Rightarrow> (Label \<rightharpoonup> addr) \<Rightarrow> Feature \<Rightarrow> nat \<Rightarrow> Example \<Rightarrow> Label list \<Rightarrow> wmap64 \<Rightarrow> error + wmap64" where
  "add_w_labels64 hp ds feature i example [] w = Inr w"
| "add_w_labels64 hp ds feature i example (label # ls) w =
     (case ds label of
        None \<Rightarrow> Inl NilDereference
      | Some p \<Rightarrow>
          (case index64 (P64 (cells64 hp p)) (int i) of
             Inl err \<Rightarrow> Inl err
           | Inr d \<Rightarrow>
               add_w_labels64 hp ds feature i example ls
                 (w(Key (HasLabel example label) (Some feature) label \<mapsto>
                      fadd (lookup64 w (Key (HasLabel example label) (Some feature) label)) d))))"

fun add_w_examples64 ::
  "heap64 \<Rightarrow> (Label \<rightharpoonup> addr) \<Rightarrow> Feature \<Rightarrow> Label list \<Rightarrow> nat \<Rightarrow> Example list \<Rightarrow> wmap64 \<Rightarrow> error + wmap64" where
  "add_w_examples64 hp ds feature ls i [] w = Inr w"
| "add_w_examples64 hp ds feature ls i (example # es) w =
     (if \<not> Test feature example then add_w_examples64 hp ds feature ls (Suc i) es w
      else
        (case add_w_labels64 hp ds feature i example ls w of
           Inl err \<Rightarrow> Inl err
         | Inr w' \<Rightarrow> add_w_examples64 hp ds feature ls (Suc i) es w'))"

fun compute_w64 ::
  "heap64 \<Rightarrow> (Label \<rightharpoonup> addr) \<Rightarrow> Label list \<Rightarrow> Example list \<Rightarrow> Feature list \<Rightarrow> wmap64 \<Rightarrow> error + wmap64" where
  "compute_w64 hp ds ls es [] w = Inr w"
| "compute_w64 hp ds ls es (feature # fs) w =
     (case add_w_examples64 hp ds feature ls 0 es (init_w64 feature ls w) of
        Inl err \<Rightarrow> Inl err
      | Inr w' \<Rightarrow> compute_w64 hp ds ls es fs w')"

fun sum_zFeature64 :: "wmap64 \<Rightarrow> Feature \<Rightarrow> Label list \<Rightarrow> float64 \<Rightarrow> float64" where
  "sum_zFeature64 w feature [] zFeature = zFeature"
| "sum_zFeature64 w feature (label # ls) zFeature =
     sum_zFeature64 w feature ls
       (fadd zFeature
          (fsqrt (fmul (lookup64 w (Key True (Some feature) label))
                       (lookup64 w (Key False (Some feature) label)))))"

fun select_feature64 ::
  "wmap64 \<Rightarrow> Label list \<Rightarrow> Feature list \<Rightarrow> Feature option \<times> float64 \<times> float64 \<Rightarrow>
   Feature option \<times> float64 \<times> float64" where
  "select_feature64 w ls [] (fMin, zMin, z) = (fMin, zMin, z)"
| "select_feature64 w ls (feature # fs) (fMin, zMin, z) =
     (let zFeature = sum_zFeature64 w feature ls (Finite 0)
      in if fless zFeature zMin then select_feature64 w ls fs (Some feature, zFeature, fadd z zFeature)
         else select_feature64 w ls fs (fMin, zMin, fadd z zFeature))"

fun confidences64 :: "wmap64 \<Rightarrow> Feature option \<Rightarrow> Label list \<Rightarrow> (Label \<rightharpoonup> float64) \<Rightarrow> (Label \<rightharpoonup> float64)" where
  "confidences64 w fMin [] cs = cs"
| "confidences64 w fMin (label # ls) cs =
     confidences64 w fMin ls
       (cs(label \<mapsto>
          fmul (Finite 0.5)
            (flog (fdiv (fadd (Finite 1) (lookup64 w (Key True fMin label)))
                        (fadd (Finite 1) (lookup64 w (Key False fMin label)))))))"

definition NewStump64 :: "DecisionStumper \<Rightarrow> heap64 \<Rightarrow> (Label \<rightharpoonup> addr) \<Rightarrow> error + DecisionStump64" where
  "NewStump64 stumper hp ds =
     (case compute_w64 hp ds (labels stumper) (examples stumper) (features stumper) Map.empty of
        Inl err \<Rightarrow> Inl err
      | Inr w \<Rightarrow>
          (case select_feature64 w (labels stumper) (features stumper)
                  (None, Finite MaxFloat64, Finite 0) of
             (fMin, zMin, z) \<Rightarrow>
               Inr \<lparr>Feature64 = fMin,
                    c64 = confidences64 w fMin (labels stumper) Map.empty,
                    zt64 = fmul z (Finite 2)\<rparr>))"

subsection \<open>AdaBoostMH\<close>

record AdaBoostMH64 =
  Examples64 :: "Example list"
  Stumper64 :: DecisionStumper
  D64 :: "Label \<rightharpoonup> addr"
  H64 :: "DecisionStump64 list"

fun alloc_uniform64 ::
  "nat \<Rightarrow> Label list \<Rightarrow> (Label \<rightharpoonup> addr) \<times> heap64 \<Rightarrow> (Label \<rightharpoonup> addr) \<times> heap64" where
  "alloc_uniform64 n [] (dm, hp) = (dm, hp)"
| "alloc_uniform64 n (label # ls) (dm, hp) =
     (case alloc64 (UniformDistribution64 n) hp of
        (p, hp') \<Rightarrow> alloc_uniform64 n ls (dm(label \<mapsto> p), hp'))"

definition NewAdaBoostMH64 :: "heap64 \<Rightarrow> Example list \<Rightarrow> DecisionStumper \<Rightarrow> AdaBoostMH64 \<times> heap64" where
  "NewAdaBoostMH64 hp es learner =
     (case alloc_uniform64 (length es) (labels learner) (Map.empty, hp) of
        (dm, hp') \<Rightarrow> (\<lparr>Examples64 = es, Stumper64 = learner, D64 = dm, H64 = []\<rparr>, hp'))"

definition hasLabel64 :: "Example \<Rightarrow> Label \<Rightarrow> float64" where
  "hasLabel64 e l = (if HasLabel e l then Finite 1 else Finite (- 1))"

text \<open>\<^verbatim>\<open>a.D[label].P[i] *= math.Exp(hasLabel(example, label)*h.Predict(example, label)) / h.zt\<close>
  for the examples from index \<open>i\<close> on: nothing but a panic stops the loop.\<close>

fun reweight_examples64 ::
  "DecisionStump64 \<Rightarrow> (Label \<rightharpoonup> addr) \<Rightarrow> Label \<Rightarrow> nat \<Rightarrow> Example list \<Rightarrow> heap64 \<Rightarrow> error + heap64" where
  "reweight_examples64 h dm label i [] hp = Inr hp"
| "reweight_examples64 h dm label i (example # es) hp =
     (case dm label of
        None \<Rightarrow> Inl NilDereference
      | Some p \<Rightarrow>
          (case index64 (P64 (cells64 hp p)) (int i) of
             Inl err \<Rightarrow> Inl err
           | Inr d \<Rightarrow>
               (case DecisionStump_Predict64 h example label of
                  Inl err \<Rightarrow> Inl err
                | Inr v \<Rightarrow>
                    reweight_examples64 h dm label (Suc i) es
                      (hp\<lparr>cells64 := (cells64 hp)
                         (p := (cells64 hp p)\<lparr>P64 := (P64 (cells64 hp p))
                            [i := fmul d (fdiv (fexp (fmul (hasLabel64 example label) v)) (zt64 h))]\<rparr>)\<rparr>))))"

fun reweight_labels64 ::
  "DecisionStump64 \<Rightarrow> (Label \<rightharpoonup> addr) \<Rightarrow> Example list \<Rightarrow> Label list \<Rightarrow> heap64 \<Rightarrow> error + heap64" where
  "reweight_labels64 h dm es [] hp = Inr hp"
| "reweight_labels64 h dm es (label # ls) hp =
     (case reweight_examples64 h dm label 0 es hp of
        Inl err \<Rightarrow> Inl err
      | Inr hp' \<Rightarrow> reweight_labels64 h dm es ls hp')"

definition Round64 :: "heap64 \<Rightarrow> AdaBoostMH64 \<Rightarrow> error + (AdaBoostMH64 \<times> heap64)" where
  "Round64 hp a =
     (case NewStump64 (Stumper64 a) hp (D64 a) of
        Inl err \<Rightarrow> Inl err
      | Inr h \<Rightarrow>
          (case reweight_labels64 h (D64 a) (Examples64 a) (labels (Stumper64 a)) hp of
             Inl err \<Rightarrow> Inl err
           | Inr hp' \<Rightarrow> Inr (a\<lparr>H64 := H64 a @ [h]\<rparr>, hp')))"

text \<open>Every label of \<open>ls\<close> points to a distribution with at least \<open>n\<close> weights.\<close>

definition has_weights :: "heap64 \<Rightarrow> (Label \<rightharpoonup> addr) \<Rightarrow> Label list \<Rightarrow> nat \<Rightarrow> bool" where
  "has_weights hp ds ls n =
     list_all (\<lambda>l. case ds l of None \<Rightarrow> False | Some p \<Rightarrow> n \<le> length (P64 (cells64 hp p))) ls"

text \<open>A state of the first embedding as a state of the second.\<close>

definition heap_to64 :: "heap \<Rightarrow> heap64" where
  "heap_to64 hp =
     \<lparr>cells64 = (\<lambda>p. \<lparr>P64 = map Finite (P (cells hp p))\<rparr>), next_free64 = next_free hp\<rparr>"

definition map_to64 :: "('k \<rightharpoonup> real) \<Rightarrow> ('k \<rightharpoonup> float64)" where
  "map_to64 m k = map_option Finite (m k)"

definition stump_to64 :: "DecisionStump \<Rightarrow> DecisionStump64" where
  "stump_to64 h = \<lparr>Feature64 = Feature h, c64 = map_to64 (c h), zt64 = Finite (zt h)\<rparr>"

definition AdaBoostMH_to64 :: "AdaBoostMH \<Rightarrow> AdaBoostMH64" where
  "AdaBoostMH_to64 a =
     \<lparr>Examples64 = Examples a, Stumper64 = Stumper a, D64 = D a, H64 = map stump_to64 (H a)\<rparr>"

subsection \<open>Concrete inputs with two labels\<close>

definition example_B :: Example where
  "example_B = \<lparr>Labels = [''B''], HasLabel = (\<lambda>l. l = ''B'')\<rparr>"

definition empty_heap64 :: heap64 where
  "empty_heap64 = \<lparr>cells64 = (\<lambda>p. \<lparr>P64 = []\<rparr>), next_free64 = 0\<rparr>"

text \<open>One example carrying A and one carrying B; one feature true of both and one true
  of the first only.\<close>

definition stumper_AB :: DecisionStumper where
  "stumper_AB = NewDecisionStumper [feature_always, feature_has_A] [example_A, example_B]"

definition untrained_AB :: AdaBoostMH64 where
  "untrained_AB = fst (NewAdaBoostMH64 empty_heap64 [example_A, example_B] stumper_AB)"

definition heap_AB :: heap64 where
  "heap_AB = snd (NewAdaBoostMH64 empty_heap64 [example_A, example_B] stumper_AB)"

text \<open>Two examples carrying A and two carrying B; one feature, true of exactly the
  examples that carry A.\<close>

definition stumper_AABB :: DecisionStumper where
  "stumper_AABB =
     NewDecisionStumper [feature_has_A] [example_A, example_A, example_B, example_B]"

definition untrained_AABB :: AdaBoostMH64 where
  "untrained_AABB =
     fst (NewAdaBoostMH64 empty_heap64 [example_A, example_A, example_B, example_B] stumper_AABB)"

definition heap_AABB :: heap64 where
  "heap_AABB =
     snd (NewAdaBoostMH64 empty_heap64 [example_A, example_A, example_B, example_B] stumper_AABB)"

section \<open>Properties\<close>

subsection \<open>Sampling\<close>

text \<open>A call of \<open>search\<close> on a non-empty range whose first entry is not above the
  draw never returns: the right-hand recursion keeps the range when \<open>mid\<close> is
  \<open>startInclusive\<close>, and the left-hand one can only be taken at a \<open>mid\<close> above it.\<close>

lemma search_returns_not_stuck:
  assumes "search s cum a b = Some y"
  shows "\<not> (0 \<le> a \<and> a < b \<and> b \<le> int (length cum) \<and> \<not> s < cum ! nat a)"
  using assms
proof (induction rule: search.raw_induct [rotated 1, consumes 1])
  case (1 search s cumulative startInclusive endExclusive y)
  show ?case
  proof
    assume A: "0 \<le> startInclusive \<and> startInclusive < endExclusive \<and>
      endExclusive \<le> int (length cumulative) \<and> \<not> s < cumulative ! nat startInclusive"
    define mid where "mid = startInclusive + (endExclusive - startInclusive) sdiv 2"
    have "(endExclusive - startInclusive) sdiv 2 = (endExclusive - startInclusive) div 2"
      using A by (simp add: signed_divide_int_def sgn_if)
    then have m: "startInclusive \<le> mid" "mid < endExclusive"
      using A unfolding mid_def by linarith+
    have ix: "index cumulative mid = Inr (cumulative ! nat mid)"
      using A m by (simp add: index_def)
    show False
    proof (cases "s < cumulative ! nat mid")
      case True
      then have "search s cumulative startInclusive mid = Some y"
        using "1.hyps" A ix by (simp add: mid_def [symmetric])
      moreover have "startInclusive < mid"
        using True A m by (cases "startInclusive = mid") auto
      ultimately show False
        using "1.IH" [of s cumulative startInclusive mid y] A m by simp
    next
      case False
      then have "search s cumulative mid endExclusive = Some y"
        using "1.hyps" A ix by (simp add: mid_def [symmetric])
      then show False
        using "1.IH" [of s cumulative mid endExclusive y] A m False by simp
    qed
  qed
qed

lemma search_diverges:
  assumes "0 \<le> a" "a < b" "b \<le> int (length cum)" "\<not> s < cum ! nat a"
  shows "search s cum a b = None"
proof (cases "search s cum a b")
  case None
  then show ?thesis .
next
  case (Some y)
  from search_returns_not_stuck [OF Some] assms show ?thesis by simp
qed

text \<open>From index 0 the search can only return 0, and only by going left every time.\<close>

lemma search_from_0:
  assumes "s < cum ! 0" "0 < b" "b \<le> int (length cum)"
  shows "search s cum 0 b = Some (Inr 0) \<or> search s cum 0 b = None"
  using assms
proof (induction "nat b" arbitrary: b rule: less_induct)
  case less
  define mid where "mid = b sdiv 2"
  have md: "mid = b div 2"
    using less.prems by (simp add: mid_def signed_divide_int_def sgn_if)
  have m: "0 \<le> mid" "mid < b"
    using less.prems md by linarith+
  have ix: "index cum mid = Inr (cum ! nat mid)"
    using m less.prems by (simp add: index_def)
  have unf: "search s cum 0 b =
      (if s < cum ! nat mid then search s cum 0 mid else search s cum mid b)"
    using less.prems ix by (subst search.simps) (simp add: mid_def [symmetric])
  show ?case
  proof (cases "s < cum ! nat mid")
    case True
    show ?thesis
    proof (cases "mid = 0")
      case True
      have "index cum 0 = Inr (cum ! 0)"
        using less.prems by (auto simp add: index_def)
      then have "search s cum 0 0 = Some (Inr 0)"
        using less.prems by (subst search.simps) simp
      then show ?thesis
        using unf True \<open>s < cum ! nat mid\<close> by simp
    next
      case False
      then have "search s cum 0 mid = Some (Inr 0) \<or> search s cum 0 mid = None"
        using less.hyps [of mid] m less.prems by simp
      then show ?thesis
        using unf True by simp
    qed
  next
    case False
    then have "search s cum mid b = None"
      using m less.prems by (intro search_diverges) simp_all
    then show ?thesis
      using unf False by simp
  qed
qed

text \<open>Hence the call that \<open>Sample\<close> makes never ends in the panic of \<open>search\<close>,
  whatever the array and the draw.\<close>

lemma search_never_reports:
  "search s cum 0 (int (length cum)) \<noteq> Some (Inl InvariantViolation)"
proof (cases "cum = []")
  case True
  then show ?thesis
    by (subst search.simps) (simp add: index_def)
next
  case False
  then have len: "0 < int (length cum)"
    by simp
  show ?thesis
  proof (cases "s < cum ! 0")
    case True
    from search_from_0 [OF True len] show ?thesis
      by auto
  next
    case False
    then have "search s cum 0 (int (length cum)) = None"
      using len by (intro search_diverges) simp_all
    then show ?thesis
      by simp
  qed
qed

text \<open>So \<open>Sample\<close> returns only for a draw below the first weight, and then index 0.\<close>

lemma Sample_not_below_first_weight:
  assumes "P d = p # ps" and "p \<le> s"
  shows "Sample d s = None"
proof -
  have "search s (cumulate 0 (P d)) 0 (int (length (cumulate 0 (P d)))) = None"
    using assms by (intro search_diverges) simp_all
  then show ?thesis
    by (simp add: Sample_def)
qed

lemma Sample_below_first_weight:
  assumes "P d = p # ps" and "s < p"
  shows "Sample d s = Some (Inr 0) \<or> Sample d s = None"
proof -
  have "s < cumulate 0 (P d) ! 0" "0 < int (length (cumulate 0 (P d)))"
    using assms by simp_all
  from search_from_0 [OF this order_refl] show ?thesis
    by (simp add: Sample_def Let_def)
qed

text \<open>
  C2. The weights \<open>[1/2, 1/2]\<close> have the valid cumulative array \<open>[1/2, 1]\<close>, and for
  the draw \<open>3/4\<close> the index \<open>i\<close> with \<open>cumulative[i-1] < 3/4 \<le> cumulative[i]\<close> is 1.
  \<open>Sample\<close> does not return it: \<open>search\<close> reaches the range from 0 to 1 and calls
  itself on that same range for ever.
\<close>

theorem Sample_valid_distribution_diverges:
  "cumulate 0 (P \<lparr>P = [1/2, 1/2]\<rparr>) = [1/2, 1] \<and>
   [1/2, 1 :: real] ! 0 < 3/4 \<and> 3/4 \<le> [1/2, 1 :: real] ! 1 \<and>
   Sample \<lparr>P = [1/2, 1/2]\<rparr> (3/4) = None"
proof -
  have "search (3/4) [1/2, 1] 0 2 = search (3/4) [1/2, 1] 0 1"
    by (subst search.simps) (simp add: index_def signed_divide_int_def)
  also have "\<dots> = None"
    by (rule search_diverges) simp_all
  finally show ?thesis
    by (simp add: Sample_def)
qed

text \<open>
  C3. The cumulative array \<open>[1/2]\<close> does not reach 1, and the draw \<open>3/4\<close> falls
  outside its only bucket. \<open>search\<close> does not report the invariant violation: it
  calls itself on the range from 0 to 1 for ever.
\<close>

theorem search_malformed_diverges:
  "search (3/4) [1/2] 0 (int (length [1/2 :: real])) = None"
  by (rule search_diverges) simp_all

subsection \<open>Prediction and evaluation\<close>

text \<open>
  C9. When the stump's feature tests false on the example, \<open>Predict\<close> returns
  \<open>-1\<close>, whatever the labels of the example and the stored confidences; when it
  tests true, \<open>Predict\<close> returns the confidence stored for the label.
\<close>

theorem DecisionStump_Predict_cases:
  assumes "Feature d = Some f"
  shows "DecisionStump_Predict d e l = Inr (if Test f e then lookup (c d) l else - 1)"
  using assms by (simp add: DecisionStump_Predict_def)

theorem DecisionStump_Predict_cases_witness:
  "Feature \<lparr>Feature = Some feature_always, c = [''A'' \<mapsto> 1/4], zt = 1\<rparr> = Some feature_always \<and>
   DecisionStump_Predict \<lparr>Feature = Some feature_always, c = [''A'' \<mapsto> 1/4], zt = 1\<rparr>
     example_unlabelled ''A'' = Inr (1/4) \<and>
   Feature \<lparr>Feature = Some feature_has_A, c = [''A'' \<mapsto> 1/4], zt = 1\<rparr> = Some feature_has_A \<and>
   DecisionStump_Predict \<lparr>Feature = Some feature_has_A, c = [''A'' \<mapsto> 1/4], zt = 1\<rparr>
     example_unlabelled ''A'' = Inr (- 1)"
  using DecisionStump_Predict_cases
    [of "\<lparr>Feature = Some feature_always, c = [''A'' \<mapsto> 1/4], zt = 1\<rparr>" feature_always
      example_unlabelled "''A''"]
    DecisionStump_Predict_cases
    [of "\<lparr>Feature = Some feature_has_A, c = [''A'' \<mapsto> 1/4], zt = 1\<rparr>" feature_has_A
      example_unlabelled "''A''"]
  by (simp add: feature_always_def feature_has_A_def example_unlabelled_def lookup_def)

lemma stumper_A_eq:
  "stumper_A = \<lparr>labels = [''A''], features = [feature_always], examples = [example_A]\<rparr>"
  by (simp add: stumper_A_def NewDecisionStumper_def example_A_def add_label_def)

lemma untrained_A_eq:
  "untrained_A = \<lparr>Examples = [example_A], Stumper = stumper_A, D = [''A'' \<mapsto> 0], H = []\<rparr>"
  by (simp add: untrained_A_def NewAdaBoostMH_def stumper_A_eq alloc_def empty_heap_def)

text \<open>What \<open>Evaluate\<close> counts, when every prediction it asks for returns: the pairs that
  are not true positives, which are the disagreeing pairs and the true negatives.\<close>

lemma Evaluate_labels_eq:
  assumes "\<forall>l\<in>set ls. \<exists>v. AdaBoostMH_Predict a e l = Inr v"
  shows "Evaluate_labels a e ls n =
         Inr (n + length (filter (\<lambda>l. \<not> (predicts_present a e l \<and> HasLabel e l)) ls))"
  using assms
  by (induction ls arbitrary: n) (auto simp: predicts_present_def)

lemma Evaluate_examples_eq:
  assumes "\<forall>e\<in>set es. \<forall>l\<in>set (labels (Stumper a)). \<exists>v. AdaBoostMH_Predict a e l = Inr v"
  shows "Evaluate_examples a es n =
         Inr (n + (\<Sum>e\<leftarrow>es. length (filter (\<lambda>l. \<not> (predicts_present a e l \<and> HasLabel e l))
                                   (labels (Stumper a)))))"
  using assms
  by (induction es arbitrary: n) (simp_all add: Evaluate_labels_eq)

lemma not_true_positive_split:
  "length (filter (\<lambda>l. \<not> (p l \<and> q l)) ls) =
   length (filter (\<lambda>l. p l \<noteq> q l) ls) + length (filter (\<lambda>l. \<not> p l \<and> \<not> q l) ls)"
  by (induction ls) auto

lemma Evaluate_eq_Hamming_plus_true_negatives:
  assumes "\<forall>e\<in>set test. \<forall>l\<in>set (labels (Stumper a)). \<exists>v. AdaBoostMH_Predict a e l = Inr v"
  shows "Evaluate a test =
         Inr (Hamming a test +
              (\<Sum>e\<leftarrow>test. length (filter (\<lambda>l. \<not> predicts_present a e l \<and> \<not> HasLabel e l)
                                    (labels (Stumper a)))))"
proof -
  let ?ls = "labels (Stumper a)"
  have per: "length (filter (\<lambda>l. \<not> (predicts_present a e l \<and> HasLabel e l)) ?ls) =
      length (filter (disagrees a e) ?ls) +
      length (filter (\<lambda>l. \<not> predicts_present a e l \<and> \<not> HasLabel e l) ?ls)" for e
    unfolding disagrees_def [abs_def] by (rule not_true_positive_split)
  have "(\<Sum>e\<leftarrow>test. length (filter (\<lambda>l. \<not> (predicts_present a e l \<and> HasLabel e l)) ?ls)) =
        (\<Sum>e\<leftarrow>test. length (filter (disagrees a e) ?ls) +
           length (filter (\<lambda>l. \<not> predicts_present a e l \<and> \<not> HasLabel e l) ?ls))"
    by (simp only: per)
  also have "\<dots> = Hamming a test +
      (\<Sum>e\<leftarrow>test. length (filter (\<lambda>l. \<not> predicts_present a e l \<and> \<not> HasLabel e l) ?ls))"
    unfolding Hamming_def by (rule sum_list_addf)
  finally have "Evaluate_examples a test 0 =
      Inr (Hamming a test +
        (\<Sum>e\<leftarrow>test. length (filter (\<lambda>l. \<not> predicts_present a e l \<and> \<not> HasLabel e l) ?ls)))"
    using Evaluate_examples_eq [OF assms, of 0] by (simp only: add_0)
  then show ?thesis
    by (simp only: Evaluate_def)
qed

text \<open>
  C1. With the label A known and no round made, the prediction for an example that
  does not carry A is 0, not positive: prediction and membership agree, and the
  Hamming distance of this test set is 0. \<open>Evaluate\<close> returns 1: it skips a pair
  only when the prediction is positive and the example carries the label, so it
  counts every pair whose label is absent from the example.
\<close>

theorem Evaluate_counts_true_negative:
  "Evaluate untrained_A [example_unlabelled] = Inr 1 \<and>
   Hamming untrained_A [example_unlabelled] = 0"
  by (simp add: Evaluate_def Hamming_def disagrees_def predicts_present_def untrained_A_eq
      stumper_A_eq AdaBoostMH_Predict_def example_unlabelled_def)

text \<open>
  C10. The orchestrator is constructed with an empty ensemble, and with an empty
  ensemble \<open>Predict\<close> returns exactly 0 for every example and label, which is not
  positive.
\<close>

theorem AdaBoostMH_Predict_untrained:
  "H (fst (NewAdaBoostMH hp es learner)) = [] \<and>
   AdaBoostMH_Predict (fst (NewAdaBoostMH hp es learner)) e l = Inr 0 \<and>
   AdaBoostMH_Predict (a\<lparr>H := []\<rparr>) e l = Inr 0 \<and>
   \<not> predicts_present (a\<lparr>H := []\<rparr>) e l"
  by (simp add: AdaBoostMH_Predict_def predicts_present_def NewAdaBoostMH_def split: prod.splits)

text \<open>Before the first round \<open>Evaluate\<close> therefore counts every pair of a test example
  and a known label.\<close>

lemma Evaluate_untrained:
  "Evaluate (a\<lparr>H := []\<rparr>) test = Inr (length test * length (labels (Stumper a)))"
proof -
  have p: "AdaBoostMH_Predict (a\<lparr>H := []\<rparr>) e l = Inr 0" for e l
    by (simp add: AdaBoostMH_Predict_def)
  have "Evaluate_labels (a\<lparr>H := []\<rparr>) e ls n = Inr (n + length ls)" for e ls n
    by (induction ls arbitrary: n) (simp_all add: p)
  then have "Evaluate_examples (a\<lparr>H := []\<rparr>) es n = Inr (n + length es * length (labels (Stumper a)))"
    for es n
    by (induction es arbitrary: n) (simp_all add: algebra_simps)
  then show ?thesis
    by (simp add: Evaluate_def)
qed

subsection \<open>The concrete inputs evaluated\<close>

lemma fixtures [simp]:
  "Test feature_always e" "Test feature_has_A e = HasLabel e ''A''"
  "feature_always \<noteq> feature_has_A" "feature_has_A \<noteq> feature_always"
  "HasLabel example_A l = (l = ''A'')" "\<not> HasLabel example_unlabelled l"
  "Labels example_A = [''A'']" "Labels example_unlabelled = []"
  by (simp_all add: feature_always_def feature_has_A_def example_A_def example_unlabelled_def)

lemma sqrt_quarter: "sqrt (1/4) = 1/2"
  by (simp add: real_sqrt_divide)

lemma MaxFloat64_pos: "1 < MaxFloat64"
  by (simp add: MaxFloat64_def)

lemma stumper_AU_eq:
  "stumper_AU = \<lparr>labels = [''A''], features = [feature_always, feature_has_A],
     examples = [example_A, example_unlabelled]\<rparr>"
  by (simp add: stumper_AU_def NewDecisionStumper_def add_label_def)

lemma untrained_AU_eq:
  "untrained_AU = \<lparr>Examples = [example_A, example_unlabelled], Stumper = stumper_AU,
     D = [''A'' \<mapsto> 0], H = []\<rparr>"
  by (simp add: untrained_AU_def NewAdaBoostMH_def stumper_AU_eq alloc_def empty_heap_def)

lemma heap_AU_eq:
  "heap_AU = \<lparr>cells = (\<lambda>p. \<lparr>P = []\<rparr>)(0 := \<lparr>P = [1/2, 1/2]\<rparr>), next_free = 1\<rparr>"
  by (simp add: heap_AU_def NewAdaBoostMH_def stumper_AU_eq alloc_def empty_heap_def
      UniformDistribution_def numeral_2_eq_2)

lemma heap_A_eq:
  "heap_A = \<lparr>cells = (\<lambda>p. \<lparr>P = []\<rparr>)(0 := \<lparr>P = [1]\<rparr>), next_free = 1\<rparr>"
  by (simp add: heap_A_def NewAdaBoostMH_def stumper_A_eq alloc_def empty_heap_def
      UniformDistribution_def)

lemma NewStump_A:
  "NewStump stumper_A heap_A [''A'' \<mapsto> 0] =
   Inr \<lparr>Feature = Some feature_always, c = [''A'' \<mapsto> 0.5 * ln 2], zt = 0\<rparr>"
  using MaxFloat64_pos
  by (simp add: NewStump_def stumper_A_eq heap_A_eq index_def lookup_def)

lemma NewStump_AU:
  "NewStump stumper_AU heap_AU [''A'' \<mapsto> 0] =
   Inr \<lparr>Feature = Some feature_has_A, c = [''A'' \<mapsto> 0.5 * ln (3/2)], zt = 1\<rparr>"
  using MaxFloat64_pos
  by (simp add: NewStump_def stumper_AU_eq heap_AU_eq index_def lookup_def sqrt_quarter)

lemma untrained_A_fields:
  "Examples untrained_A = [example_A]" "Stumper untrained_A = stumper_A"
  "D untrained_A = [''A'' \<mapsto> 0]" "H untrained_A = []" "labels stumper_A = [''A'']"
  by (simp_all add: untrained_A_eq stumper_A_eq)

lemma untrained_AU_fields:
  "Examples untrained_AU = [example_A, example_unlabelled]" "Stumper untrained_AU = stumper_AU"
  "D untrained_AU = [''A'' \<mapsto> 0]" "H untrained_AU = []" "labels stumper_AU = [''A'']"
  by (simp_all add: untrained_AU_eq stumper_AU_eq)

lemma heap_cells:
  "cells heap_A 0 = \<lparr>P = [1]\<rparr>" "cells heap_AU 0 = \<lparr>P = [1/2, 1/2]\<rparr>"
  by (simp_all add: heap_A_eq heap_AU_eq)

lemma Round_A: "Round heap_A untrained_A = Inl DivisionByZero"
  by (simp add: Round_def untrained_A_fields NewStump_A heap_cells index_def
      DecisionStump_Predict_def)

lemma Round_AU:
  "Round heap_AU untrained_AU =
   Inr (untrained_AU\<lparr>H := [\<lparr>Feature = Some feature_has_A, c = [''A'' \<mapsto> 0.5 * ln (3/2)], zt = 1\<rparr>]\<rparr>,
        heap_AU\<lparr>cells := (cells heap_AU)
          (0 := \<lparr>P = [1/2 * exp (1 * (0.5 * ln (3/2))) / 1, 1/2 * exp (- 1 * - 1) / 1]\<rparr>)\<rparr>)"
  by (simp add: Round_def untrained_AU_fields NewStump_AU heap_cells index_def
      DecisionStump_Predict_def hasLabel_def lookup_def)

lemma Zf_AU:
  "Zf stumper_AU heap_AU [''A'' \<mapsto> 0] feature_always = 1/2"
  "Zf stumper_AU heap_AU [''A'' \<mapsto> 0] feature_has_A = 0"
  by (simp_all add: Zf_def W_def weight_def stumper_AU_eq heap_cells sqrt_quarter
      upt_conv_Cons)

subsection \<open>The weak-learner search\<close>

lemma W_from_filter:
  "W_from wt sel i es = (\<Sum>j\<leftarrow>filter (\<lambda>j. sel (es ! j)) [0..<length es]. wt (i + j))"
proof (induction es arbitrary: i)
  case Nil
  show ?case by simp
next
  case (Cons e es)
  have upt: "[0..<length (e # es)] = 0 # map Suc [0..<length es]"
    by (simp add: upt_conv_Cons map_Suc_upt del: upt_Suc)
  have "(\<Sum>j\<leftarrow>filter (\<lambda>j. sel ((e # es) ! j)) (map Suc [0..<length es]). wt (i + j)) =
        (\<Sum>j\<leftarrow>filter (\<lambda>j. sel (es ! j)) [0..<length es]. wt (Suc i + j))"
    by (simp add: filter_map comp_def)
  then show ?case
    unfolding upt using Cons.IH [of "Suc i"] by simp
qed

lemma W_from_nonneg:
  assumes "\<forall>j<length es. 0 \<le> wt (i + j)"
  shows "0 \<le> W_from wt sel i es"
  using assms
proof (induction es arbitrary: i)
  case Nil
  show ?case by simp
next
  case (Cons e es)
  have "0 \<le> wt i"
    using Cons.prems by force
  moreover have "0 \<le> W_from wt sel (Suc i) es"
  proof (rule Cons.IH, intro allI impI)
    fix j assume "j < length es"
    then show "0 \<le> wt (Suc i + j)"
      using Cons.prems [rule_format, of "Suc j"] by simp
  qed
  ultimately show ?case by simp
qed

lemma W_eq_W_from:
  "W b stumper hp ds f l =
   W_from (weight hp ds l) (\<lambda>e. Test f e \<and> HasLabel e l = b) 0 (examples stumper)"
  by (simp add: W_def W_from_filter)

lemma lookup_update:
  "lookup (m(k \<mapsto> v)) k' = (if k' = k then v else lookup m k')"
  by (simp add: lookup_def)

lemma lookup_empty: "lookup Map.empty k = 0"
  by (simp add: lookup_def)

lemma init_w_lookup:
  "lookup (init_w f ls w) (Key b g l) =
   (if g = Some f \<and> l \<in> set ls then 0 else lookup w (Key b g l))"
  by (induction ls arbitrary: w) (auto simp: lookup_update)

lemma weights_ok_iff:
  "weights_ok hp ds ls n \<longleftrightarrow>
   (\<forall>l\<in>set ls. \<exists>p. ds l = Some p \<and> n \<le> length (P (cells hp p)) \<and>
      (\<forall>i<n. 0 \<le> P (cells hp p) ! i))"
proof -
  have "(case ds l of
           None \<Rightarrow> False
         | Some p \<Rightarrow> n \<le> length (P (cells hp p)) \<and>
             list_all (\<lambda>x. 0 \<le> x) (take n (P (cells hp p)))) \<longleftrightarrow>
        (\<exists>p. ds l = Some p \<and> n \<le> length (P (cells hp p)) \<and>
           (\<forall>i<n. 0 \<le> P (cells hp p) ! i))" for l
    by (cases "ds l") (auto simp: list_all_length)
  then show ?thesis
    unfolding weights_ok_def list_all_iff by simp
qed

lemma weights_ok_weight:
  assumes "weights_ok hp ds ls n" "l \<in> set ls" "i < n"
  shows "0 \<le> weight hp ds l i"
  using assms unfolding weights_ok_iff weight_def by fastforce

lemma add_w_labels_ok:
  assumes "distinct ls"
      and "\<forall>l\<in>set ls. \<exists>p. ds l = Some p \<and> i < length (P (cells hp p))"
  shows "\<exists>w'. add_w_labels hp ds f i e ls w = Inr w' \<and>
           (\<forall>b g l. lookup w' (Key b g l) =
              lookup w (Key b g l) +
              (if g = Some f \<and> l \<in> set ls \<and> b = HasLabel e l then weight hp ds l i else 0))"
  using assms
proof (induction ls arbitrary: w)
  case Nil
  show ?case by simp
next
  case (Cons a ls)
  from Cons.prems obtain p where p: "ds a = Some p" "i < length (P (cells hp p))"
    by auto
  define w1 where "w1 = w(Key (HasLabel e a) (Some f) a \<mapsto>
      lookup w (Key (HasLabel e a) (Some f) a) + P (cells hp p) ! i)"
  have step: "add_w_labels hp ds f i e (a # ls) w = add_w_labels hp ds f i e ls w1"
    using p by (simp add: index_def w1_def)
  from Cons.IH [of w1] Cons.prems obtain w' where
    w': "add_w_labels hp ds f i e ls w1 = Inr w'"
    "\<And>b g l. lookup w' (Key b g l) =
        lookup w1 (Key b g l) +
        (if g = Some f \<and> l \<in> set ls \<and> b = HasLabel e l then weight hp ds l i else 0)"
    by auto
  have wa: "weight hp ds a i = P (cells hp p) ! i"
    using p by (simp add: weight_def)
  have "lookup w' (Key b g l) =
        lookup w (Key b g l) +
        (if g = Some f \<and> l \<in> set (a # ls) \<and> b = HasLabel e l then weight hp ds l i else 0)"
    for b g l
    using Cons.prems(1) by (auto simp: w'(2) w1_def lookup_update wa)
  then show ?case
    using step w'(1) by auto
qed

lemma add_w_examples_ok:
  assumes "distinct ls"
      and "\<forall>l\<in>set ls. \<exists>p. ds l = Some p \<and> i + length es \<le> length (P (cells hp p))"
  shows "\<exists>w'. add_w_examples hp ds f ls i es w = Inr w' \<and>
           (\<forall>b g l. lookup w' (Key b g l) =
              lookup w (Key b g l) +
              (if g = Some f \<and> l \<in> set ls
               then W_from (weight hp ds l) (\<lambda>e. Test f e \<and> HasLabel e l = b) i es else 0))"
  using assms
proof (induction es arbitrary: i w)
  case Nil
  show ?case by simp
next
  case (Cons e es)
  have rest: "\<forall>l\<in>set ls. \<exists>p. ds l = Some p \<and> Suc i + length es \<le> length (P (cells hp p))"
    using Cons.prems(2) by simp
  show ?case
  proof (cases "Test f e")
    case False
    from Cons.IH [OF Cons.prems(1) rest, of w] obtain w' where
      w': "add_w_examples hp ds f ls (Suc i) es w = Inr w'"
      "\<And>b g l. lookup w' (Key b g l) =
         lookup w (Key b g l) +
         (if g = Some f \<and> l \<in> set ls
          then W_from (weight hp ds l) (\<lambda>e. Test f e \<and> HasLabel e l = b) (Suc i) es else 0)"
      by auto
    have "add_w_examples hp ds f ls i (e # es) w = Inr w'"
      using False w'(1) by simp
    moreover have "lookup w' (Key b g l) =
         lookup w (Key b g l) +
         (if g = Some f \<and> l \<in> set ls
          then W_from (weight hp ds l) (\<lambda>e. Test f e \<and> HasLabel e l = b) i (e # es) else 0)"
      for b g l
      using False by (simp add: w'(2))
    ultimately show ?thesis by auto
  next
    case True
    have here: "\<forall>l\<in>set ls. \<exists>p. ds l = Some p \<and> i < length (P (cells hp p))"
      using Cons.prems(2) by fastforce
    from add_w_labels_ok [OF Cons.prems(1) here, of f e w] obtain w1 where
      w1: "add_w_labels hp ds f i e ls w = Inr w1"
      "\<And>b g l. lookup w1 (Key b g l) =
         lookup w (Key b g l) +
         (if g = Some f \<and> l \<in> set ls \<and> b = HasLabel e l then weight hp ds l i else 0)"
      by auto
    from Cons.IH [OF Cons.prems(1) rest, of w1] obtain w' where
      w': "add_w_examples hp ds f ls (Suc i) es w1 = Inr w'"
      "\<And>b g l. lookup w' (Key b g l) =
         lookup w1 (Key b g l) +
         (if g = Some f \<and> l \<in> set ls
          then W_from (weight hp ds l) (\<lambda>e. Test f e \<and> HasLabel e l = b) (Suc i) es else 0)"
      by auto
    have "add_w_examples hp ds f ls i (e # es) w = Inr w'"
      using True w1(1) w'(1) by simp
    moreover have "lookup w' (Key b g l) =
         lookup w (Key b g l) +
         (if g = Some f \<and> l \<in> set ls
          then W_from (weight hp ds l) (\<lambda>e. Test f e \<and> HasLabel e l = b) i (e # es) else 0)"
      for b g l
      using True by (auto simp: w'(2) w1(2))
    ultimately show ?thesis by auto
  qed
qed

lemma compute_w_ok:
  assumes "distinct ls"
      and "\<forall>l\<in>set ls. \<exists>p. ds l = Some p \<and> length es \<le> length (P (cells hp p))"
  shows "\<exists>w'. compute_w hp ds ls es fs w = Inr w' \<and>
           (\<forall>b g l. lookup w' (Key b g l) =
              (if g \<in> Some ` set fs \<and> l \<in> set ls
               then W_from (weight hp ds l) (\<lambda>e. Test (the g) e \<and> HasLabel e l = b) 0 es
               else lookup w (Key b g l)))"
  using assms
proof (induction fs arbitrary: w)
  case Nil
  show ?case by simp
next
  case (Cons f fs)
  have len: "\<forall>l\<in>set ls. \<exists>p. ds l = Some p \<and> 0 + length es \<le> length (P (cells hp p))"
    using Cons.prems(2) by simp
  from add_w_examples_ok [OF Cons.prems(1) len, of f "init_w f ls w"] obtain w1 where
    w1: "add_w_examples hp ds f ls 0 es (init_w f ls w) = Inr w1"
    "\<And>b g l. lookup w1 (Key b g l) =
       lookup (init_w f ls w) (Key b g l) +
       (if g = Some f \<and> l \<in> set ls
        then W_from (weight hp ds l) (\<lambda>e. Test f e \<and> HasLabel e l = b) 0 es else 0)"
    by auto
  from Cons.IH [OF Cons.prems, of w1] obtain w' where
    w': "compute_w hp ds ls es fs w1 = Inr w'"
    "\<And>b g l. lookup w' (Key b g l) =
       (if g \<in> Some ` set fs \<and> l \<in> set ls
        then W_from (weight hp ds l) (\<lambda>e. Test (the g) e \<and> HasLabel e l = b) 0 es
        else lookup w1 (Key b g l))"
    by auto
  have "compute_w hp ds ls es (f # fs) w = Inr w'"
    using w1(1) w'(1) by simp
  moreover have "lookup w' (Key b g l) =
       (if g \<in> Some ` set (f # fs) \<and> l \<in> set ls
        then W_from (weight hp ds l) (\<lambda>e. Test (the g) e \<and> HasLabel e l = b) 0 es
        else lookup w (Key b g l))"
    for b g l
    by (auto simp: w'(2) w1(2) init_w_lookup)
  ultimately show ?case by auto
qed

lemma sum_zFeature_ok:
  assumes "\<forall>l\<in>set ls. 0 \<le> lookup w (Key True (Some f) l) * lookup w (Key False (Some f) l)"
  shows "sum_zFeature w f ls z =
         Inr (z + (\<Sum>l\<leftarrow>ls. sqrt (lookup w (Key True (Some f) l) * lookup w (Key False (Some f) l))))"
  using assms by (induction ls arbitrary: z) (auto simp: Let_def not_less)

lemma select_feature_ok:
  assumes "\<forall>f\<in>set fs. \<forall>l\<in>set ls.
             0 \<le> lookup w (Key True (Some f) l) * lookup w (Key False (Some f) l)"
  shows "\<exists>fMin' zMin'.
           select_feature w ls fs (fMin, zMin, z) =
             Inr (fMin', zMin',
                  z + (\<Sum>f\<leftarrow>fs. \<Sum>l\<leftarrow>ls.
                         sqrt (lookup w (Key True (Some f) l) * lookup w (Key False (Some f) l)))) \<and>
           (fMin' = fMin \<or> fMin' \<in> Some ` set fs) \<and>
           (fMin' = None \<longrightarrow>
              (\<forall>f\<in>set fs. zMin \<le> (\<Sum>l\<leftarrow>ls.
                 sqrt (lookup w (Key True (Some f) l) * lookup w (Key False (Some f) l)))))"
  using assms
proof (induction fs arbitrary: fMin zMin z)
  case Nil
  show ?case by simp
next
  case (Cons f fs)
  define zFeature where "zFeature =
    (\<Sum>l\<leftarrow>ls. sqrt (lookup w (Key True (Some f) l) * lookup w (Key False (Some f) l)))"
  have zf: "sum_zFeature w f ls 0 = Inr zFeature"
    using Cons.prems by (simp add: sum_zFeature_ok zFeature_def)
  have rest: "\<forall>f\<in>set fs. \<forall>l\<in>set ls.
      0 \<le> lookup w (Key True (Some f) l) * lookup w (Key False (Some f) l)"
    using Cons.prems by simp
  show ?case
  proof (cases "zFeature < zMin")
    case True
    from Cons.IH [OF rest, of "Some f" zFeature "z + zFeature"] show ?thesis
      using zf True by (auto simp: zFeature_def add.assoc)
  next
    case False
    from Cons.IH [OF rest, of fMin zMin "z + zFeature"] show ?thesis
      using zf False by (auto simp: zFeature_def add.assoc)
  qed
qed

lemma confidences_ok:
  assumes "\<forall>l\<in>set ls. 0 \<le> lookup w (Key True fMin l) \<and> 0 \<le> lookup w (Key False fMin l)"
  shows "\<exists>cs'. confidences w fMin ls cs = Inr cs' \<and>
           (\<forall>l. cs' l =
              (if l \<in> set ls
               then Some (0.5 * ln ((1 + lookup w (Key True fMin l)) /
                                    (1 + lookup w (Key False fMin l))))
               else cs l))"
  using assms
proof (induction ls arbitrary: cs)
  case Nil
  show ?case by simp
next
  case (Cons a ls)
  define num where "num = 1 + lookup w (Key True fMin a)"
  define den where "den = 1 + lookup w (Key False fMin a)"
  have pos: "0 < num" "0 < den"
    using Cons.prems by (simp_all add: num_def den_def add_pos_nonneg)
  then have q: "den \<noteq> 0" "\<not> num / den \<le> 0"
    by (simp_all add: not_le)
  have step: "confidences w fMin (a # ls) cs =
      confidences w fMin ls (cs(a \<mapsto> 0.5 * ln (num / den)))"
    using q by (simp add: num_def [symmetric] den_def [symmetric])
  have rest: "\<forall>l\<in>set ls. 0 \<le> lookup w (Key True fMin l) \<and> 0 \<le> lookup w (Key False fMin l)"
    using Cons.prems by simp
  from Cons.IH [OF rest, of "cs(a \<mapsto> 0.5 * ln (num / den))"] obtain cs' where
    cs': "confidences w fMin ls (cs(a \<mapsto> 0.5 * ln (num / den))) = Inr cs'"
    "\<And>l. cs' l =
       (if l \<in> set ls
        then Some (0.5 * ln ((1 + lookup w (Key True fMin l)) / (1 + lookup w (Key False fMin l))))
        else (cs(a \<mapsto> 0.5 * ln (num / den))) l)"
    by blast
  have "cs' l =
       (if l \<in> set (a # ls)
        then Some (0.5 * ln ((1 + lookup w (Key True fMin l)) / (1 + lookup w (Key False fMin l))))
        else cs l)" for l
    unfolding cs'(2) by (simp add: num_def den_def)
  moreover have "confidences w fMin (a # ls) cs = Inr cs'"
    using step cs'(1) by (rule trans)
  ultimately show ?case
    by (intro exI [of _ cs'] conjI allI)
qed

text \<open>The weighted sums of the selected feature; a nil feature has no entry in
  \<^verbatim>\<open>w\<close>, and a missing entry reads as 0.\<close>

lemma W_nonneg:
  assumes "weights_ok hp ds (labels st) (length (examples st))" "l \<in> set (labels st)"
  shows "0 \<le> W b st hp ds f l"
  unfolding W_eq_W_from
  using weights_ok_weight [OF assms] by (intro W_from_nonneg) simp

lemma NewStump_ok:
  assumes "distinct (labels st)"
      and "weights_ok hp ds (labels st) (length (examples st))"
  shows "\<exists>h. NewStump st hp ds = Inr h \<and>
           zt h = 2 * (\<Sum>f\<leftarrow>features st. Zf st hp ds f) \<and>
           (Feature h = None \<or> Feature h \<in> Some ` set (features st)) \<and>
           (Feature h = None \<longrightarrow> (\<forall>f\<in>set (features st). MaxFloat64 \<le> Zf st hp ds f)) \<and>
           (\<forall>l. c h l =
              (if l \<in> set (labels st)
               then Some (0.5 * ln ((1 + (case Feature h of None \<Rightarrow> 0 | Some f \<Rightarrow> W True st hp ds f l)) /
                                    (1 + (case Feature h of None \<Rightarrow> 0 | Some f \<Rightarrow> W False st hp ds f l))))
               else None))"
proof -
  have len: "\<forall>l\<in>set (labels st). \<exists>p. ds l = Some p \<and> length (examples st) \<le> length (P (cells hp p))"
    using assms(2) unfolding weights_ok_iff by blast
  from compute_w_ok [OF assms(1) len, of "features st" Map.empty] obtain w where
    w: "compute_w hp ds (labels st) (examples st) (features st) Map.empty = Inr w"
    "\<And>b g l. lookup w (Key b g l) =
       (if g \<in> Some ` set (features st) \<and> l \<in> set (labels st)
        then W_from (weight hp ds l) (\<lambda>e. Test (the g) e \<and> HasLabel e l = b) 0 (examples st)
        else lookup Map.empty (Key b g l))"
    by blast
  have wW: "lookup w (Key b (Some f) l) = W b st hp ds f l"
    if "f \<in> set (features st)" "l \<in> set (labels st)" for b f l
    using that by (simp add: w(2) W_eq_W_from)
  have wNone: "lookup w (Key b None l) = 0" for b l
    by (simp add: w(2) lookup_empty image_iff)
  have prod: "\<forall>f\<in>set (features st). \<forall>l\<in>set (labels st).
      0 \<le> lookup w (Key True (Some f) l) * lookup w (Key False (Some f) l)"
    using W_nonneg [OF assms(2)] by (simp add: wW)
  have zsum: "(\<Sum>f\<leftarrow>features st. \<Sum>l\<leftarrow>labels st.
        sqrt (lookup w (Key True (Some f) l) * lookup w (Key False (Some f) l))) =
      (\<Sum>f\<leftarrow>features st. Zf st hp ds f)"
    unfolding Zf_def
    by (intro arg_cong [where f = sum_list] map_cong refl) (simp add: wW)
  from select_feature_ok [OF prod, of None MaxFloat64 0] obtain fMin zMin where
    sel: "select_feature w (labels st) (features st) (None, MaxFloat64, 0) =
        Inr (fMin, zMin, (\<Sum>f\<leftarrow>features st. Zf st hp ds f))"
    and fMin: "fMin = None \<or> fMin \<in> Some ` set (features st)"
    and big: "fMin = None \<longrightarrow> (\<forall>f\<in>set (features st). MaxFloat64 \<le> (\<Sum>l\<leftarrow>labels st.
                 sqrt (lookup w (Key True (Some f) l) * lookup w (Key False (Some f) l))))"
    unfolding zsum add_0 by blast
  have zf1: "(\<Sum>l\<leftarrow>labels st.
        sqrt (lookup w (Key True (Some f) l) * lookup w (Key False (Some f) l))) = Zf st hp ds f"
    if "f \<in> set (features st)" for f
    unfolding Zf_def using that
    by (intro arg_cong [where f = sum_list] map_cong refl) (simp add: wW)
  have big': "fMin = None \<longrightarrow> (\<forall>f\<in>set (features st). MaxFloat64 \<le> Zf st hp ds f)"
    using big zf1 by simp
  have wf: "lookup w (Key b fMin l) = (case fMin of None \<Rightarrow> 0 | Some f \<Rightarrow> W b st hp ds f l)"
    if "l \<in> set (labels st)" for b l
    using fMin that by (auto simp: wNone wW)
  have nonneg: "\<forall>l\<in>set (labels st).
      0 \<le> lookup w (Key True fMin l) \<and> 0 \<le> lookup w (Key False fMin l)"
    using W_nonneg [OF assms(2)] by (auto simp: wf split: option.splits)
  from confidences_ok [OF nonneg, of Map.empty] obtain cs where
    cs: "confidences w fMin (labels st) Map.empty = Inr cs"
    "\<And>l. cs l =
       (if l \<in> set (labels st)
        then Some (0.5 * ln ((1 + lookup w (Key True fMin l)) / (1 + lookup w (Key False fMin l))))
        else None)"
    by auto
  have "NewStump st hp ds =
      Inr \<lparr>Feature = fMin, c = cs, zt = (\<Sum>f\<leftarrow>features st. Zf st hp ds f) * 2\<rparr>"
    by (simp add: NewStump_def w(1) sel cs(1))
  moreover have "cs l =
       (if l \<in> set (labels st)
        then Some (0.5 * ln ((1 + (case fMin of None \<Rightarrow> 0 | Some f \<Rightarrow> W True st hp ds f l)) /
                             (1 + (case fMin of None \<Rightarrow> 0 | Some f \<Rightarrow> W False st hp ds f l))))
        else None)" for l
    by (simp add: cs(2) wf)
  ultimately show ?thesis
    using fMin big' by simp
qed

subsection \<open>Construction and the stump of a round\<close>

lemma Zf_nonneg:
  assumes "weights_ok hp ds (labels st) (length (examples st))"
  shows "0 \<le> Zf st hp ds f"
  unfolding Zf_def using W_nonneg [OF assms] by (intro sum_list_nonneg) auto

lemma NewStump_no_features:
  "NewStump \<lparr>labels = ls, features = [], examples = es\<rparr> hp ds =
   Inr \<lparr>Feature = None, c = (\<lambda>l. if l \<in> set ls then Some 0 else None), zt = 0\<rparr>"
proof -
  have "\<forall>l\<in>set ls. 0 \<le> lookup Map.empty (Key True None l) \<and> 0 \<le> lookup Map.empty (Key False None l)"
    by (simp add: lookup_empty)
  from confidences_ok [OF this, of Map.empty] obtain cs where
    cs: "confidences Map.empty None ls Map.empty = Inr cs"
    "\<And>l. cs l =
       (if l \<in> set ls
        then Some (0.5 * ln ((1 + lookup Map.empty (Key True None l)) /
                             (1 + lookup Map.empty (Key False None l))))
        else None)"
    by blast
  have "cs = (\<lambda>l. if l \<in> set ls then Some 0 else None)"
    by (rule ext) (simp add: cs(2) lookup_empty)
  then show ?thesis
    using cs(1) by (simp add: NewStump_def)
qed

lemma set_add_labels:
  "set (foldl (\<lambda>acc l. add_label l acc) ls xs) = set ls \<union> set xs"
  by (induction xs arbitrary: ls) (auto simp: add_label_def)

lemma distinct_add_labels:
  "distinct ls \<Longrightarrow> distinct (foldl (\<lambda>acc l. add_label l acc) ls xs)"
  by (induction xs arbitrary: ls) (auto simp: add_label_def)

lemma set_collect_labels:
  "set (collect_labels es ls) = set ls \<union> (\<Union>e\<in>set es. set (Labels e))"
  by (induction es arbitrary: ls) (auto simp: set_add_labels)

lemma distinct_collect_labels:
  "distinct ls \<Longrightarrow> distinct (collect_labels es ls)"
  by (induction es arbitrary: ls) (auto simp: distinct_add_labels)

text \<open>
  C4 (as stated). Construction from an empty feature set and an empty example set
  (hence an empty label set) is accepted: \<open>NewDecisionStumper\<close> returns a stumper,
  and \<open>NewStump\<close> on it returns a stump with no feature.
\<close>

theorem NewDecisionStumper_accepts_empty:
  "NewDecisionStumper [] [] = \<lparr>labels = [], features = [], examples = []\<rparr> \<and>
   NewStump (NewDecisionStumper [] []) empty_heap Map.empty =
     Inr \<lparr>Feature = None, c = Map.empty, zt = 0\<rparr>"
  by (simp add: NewDecisionStumper_def NewStump_def)

text \<open>
  C4 (as amended). \<open>NewDecisionStumper\<close> rejects nothing: for every feature list and
  example list, empty ones included, it returns the stumper that holds them and the
  labels of the examples, each once. With an empty feature set \<open>NewStump\<close> then
  returns a stump with no feature, \<open>zt = 0\<close> and the confidence 0 for every label.
\<close>

theorem NewDecisionStumper_total:
  "features (NewDecisionStumper fs es) = fs \<and>
   examples (NewDecisionStumper fs es) = es \<and>
   set (labels (NewDecisionStumper fs es)) = (\<Union>e\<in>set es. set (Labels e)) \<and>
   distinct (labels (NewDecisionStumper fs es)) \<and>
   NewStump (NewDecisionStumper [] es) hp ds =
     Inr \<lparr>Feature = None,
          c = (\<lambda>l. if l \<in> set (labels (NewDecisionStumper [] es)) then Some 0 else None),
          zt = 0\<rparr>"
  by (simp add: NewDecisionStumper_def set_collect_labels distinct_collect_labels
      NewStump_no_features)

text \<open>
  C7. When every known label has a distribution with a non-negative weight for each
  example, \<open>NewStump\<close> returns a stump whose \<open>zt\<close> is twice the sum of the scores
  \<open>Zf\<close> of all the features of the stumper, whichever feature is selected.
\<close>

theorem NewStump_zt:
  assumes "distinct (labels st)"
      and "weights_ok hp ds (labels st) (length (examples st))"
  shows "\<exists>h. NewStump st hp ds = Inr h \<and> zt h = 2 * (\<Sum>f\<leftarrow>features st. Zf st hp ds f)"
  using NewStump_ok [OF assms] by blast

text \<open>On the two examples and two features of \<open>stumper_AU\<close>, the selected feature has
  the score 0 and the other one the score \<open>1/2\<close>: \<open>zt\<close> is 1, twice the sum of both.\<close>

theorem NewStump_zt_witness:
  "distinct (labels stumper_AU) \<and>
   weights_ok heap_AU [''A'' \<mapsto> 0] (labels stumper_AU) (length (examples stumper_AU)) \<and>
   (\<exists>h. NewStump stumper_AU heap_AU [''A'' \<mapsto> 0] = Inr h \<and>
      zt h = 2 * (\<Sum>f\<leftarrow>features stumper_AU. Zf stumper_AU heap_AU [''A'' \<mapsto> 0] f) \<and>
      Feature h = Some feature_has_A \<and> zt h = 1) \<and>
   Zf stumper_AU heap_AU [''A'' \<mapsto> 0] feature_has_A = 0 \<and>
   Zf stumper_AU heap_AU [''A'' \<mapsto> 0] feature_always = 1/2"
proof -
  have d: "distinct (labels stumper_AU)"
    by (simp add: stumper_AU_eq)
  have w: "weights_ok heap_AU [''A'' \<mapsto> 0] (labels stumper_AU) (length (examples stumper_AU))"
    by (simp add: weights_ok_def stumper_AU_eq heap_cells)
  from NewStump_zt [OF d w] d w show ?thesis
    by (auto simp: NewStump_AU Zf_AU)
qed

text \<open>
  C8. Under the same conditions, when the returned stump has the feature \<open>f\<close>, its
  confidence for a known label \<open>l\<close> is \<open>0.5 * ln ((1 + W+[f,l]) / (1 + W-[f,l]))\<close>,
  where \<open>W+\<close> and \<open>W-\<close> sum the weights of \<open>l\<close> over the examples that satisfy \<open>f\<close>
  and, respectively, carry or do not carry \<open>l\<close>.
\<close>

theorem NewStump_confidence:
  assumes "distinct (labels st)"
      and "weights_ok hp ds (labels st) (length (examples st))"
      and "NewStump st hp ds = Inr h"
      and "Feature h = Some f"
      and "l \<in> set (labels st)"
  shows "c h l = Some (0.5 * ln ((1 + W True st hp ds f l) / (1 + W False st hp ds f l)))"
proof -
  from NewStump_ok [OF assms(1,2)] assms(3) have
    "\<forall>l. c h l =
       (if l \<in> set (labels st)
        then Some (0.5 * ln ((1 + (case Feature h of None \<Rightarrow> 0 | Some f \<Rightarrow> W True st hp ds f l)) /
                             (1 + (case Feature h of None \<Rightarrow> 0 | Some f \<Rightarrow> W False st hp ds f l))))
        else None)"
    by auto
  then show ?thesis
    using assms(4,5) by simp
qed

theorem NewStump_confidence_witness:
  "distinct (labels stumper_AU) \<and>
   weights_ok heap_AU [''A'' \<mapsto> 0] (labels stumper_AU) (length (examples stumper_AU)) \<and>
   NewStump stumper_AU heap_AU [''A'' \<mapsto> 0] =
     Inr \<lparr>Feature = Some feature_has_A, c = [''A'' \<mapsto> 0.5 * ln (3/2)], zt = 1\<rparr> \<and>
   ''A'' \<in> set (labels stumper_AU) \<and>
   c \<lparr>Feature = Some feature_has_A, c = [''A'' \<mapsto> 0.5 * ln (3/2)], zt = 1\<rparr> ''A'' =
     Some (0.5 * ln ((1 + W True stumper_AU heap_AU [''A'' \<mapsto> 0] feature_has_A ''A'') /
                     (1 + W False stumper_AU heap_AU [''A'' \<mapsto> 0] feature_has_A ''A'')))"
proof -
  have d: "distinct (labels stumper_AU)"
    by (simp add: stumper_AU_eq)
  have w: "weights_ok heap_AU [''A'' \<mapsto> 0] (labels stumper_AU) (length (examples stumper_AU))"
    by (simp add: weights_ok_def stumper_AU_eq heap_cells)
  have l: "''A'' \<in> set (labels stumper_AU)"
    by (simp add: stumper_AU_eq)
  have f: "Feature \<lparr>Feature = Some feature_has_A, c = [''A'' \<mapsto> 0.5 * ln (3/2)], zt = 1\<rparr> =
      Some feature_has_A"
    by simp
  from NewStump_confidence [OF d w NewStump_AU f l] d w NewStump_AU l show ?thesis
    by blast
qed

subsection \<open>The reweighting of a round\<close>

lemma reweight_examples_effect:
  assumes "reweight_examples h dm l i es hp = Inr hp'"
  shows "next_free hp' = next_free hp \<and>
         (\<forall>q. dm l \<noteq> Some q \<longrightarrow> cells hp' q = cells hp q) \<and>
         (\<forall>p. dm l = Some p \<longrightarrow>
            length (P (cells hp' p)) = length (P (cells hp p)) \<and>
            (\<forall>j. j < i \<or> i + length es \<le> j \<longrightarrow> P (cells hp' p) ! j = P (cells hp p) ! j) \<and>
            (\<forall>j<length es.
               i + j < length (P (cells hp p)) \<and>
               (\<exists>v. DecisionStump_Predict h (es ! j) l = Inr v \<and>
                  P (cells hp' p) ! (i + j) =
                  P (cells hp p) ! (i + j) * exp (hasLabel (es ! j) l * v) / zt h)))"
  using assms
proof (induction es arbitrary: i hp)
  case Nil
  then show ?case by simp
next
  case (Cons e es)
  from Cons.prems obtain p v where
    p: "dm l = Some p" and
    ix: "i < length (P (cells hp p))" and
    v: "DecisionStump_Predict h e l = Inr v" and
    z: "zt h \<noteq> 0"
    by (auto simp: index_def split: option.splits sum.splits if_splits)
  define hp1 where "hp1 = hp\<lparr>cells := (cells hp)
      (p := (cells hp p)\<lparr>P := (P (cells hp p))
         [i := P (cells hp p) ! i * (exp (hasLabel e l * v) / zt h)]\<rparr>)\<rparr>"
  have rest: "reweight_examples h dm l (Suc i) es hp1 = Inr hp'"
    using Cons.prems p ix v z by (simp add: index_def hp1_def)
  note IH = Cons.IH [OF rest]
  have nf: "next_free hp' = next_free hp"
    using IH by (simp add: hp1_def)
  have other: "cells hp' q = cells hp q" if "dm l \<noteq> Some q" for q
    using IH that p by (auto simp: hp1_def)
  have len: "length (P (cells hp' p)) = length (P (cells hp p))"
    using IH p by (simp add: hp1_def)
  have frame1: "P (cells hp' p) ! j = P (cells hp1 p) ! j" if "j < Suc i \<or> Suc i + length es \<le> j" for j
    using IH p that by blast
  have hp1_nth: "P (cells hp1 p) ! j = P (cells hp p) ! j" if "j \<noteq> i" for j
    using that by (simp add: hp1_def)
  have hp1_i: "P (cells hp1 p) ! i = P (cells hp p) ! i * exp (hasLabel e l * v) / zt h"
    using ix by (simp add: hp1_def)
  have frame: "P (cells hp' p) ! j = P (cells hp p) ! j" if "j < i \<or> i + length (e # es) \<le> j" for j
  proof -
    have "j < Suc i \<or> Suc i + length es \<le> j" "j \<noteq> i"
      using that by auto
    then show ?thesis
      using frame1 [of j] hp1_nth [of j] by simp
  qed
  have effect: "i + j < length (P (cells hp p)) \<and>
      (\<exists>v. DecisionStump_Predict h ((e # es) ! j) l = Inr v \<and>
         P (cells hp' p) ! (i + j) =
         P (cells hp p) ! (i + j) * exp (hasLabel ((e # es) ! j) l * v) / zt h)"
    if "j < length (e # es)" for j
  proof (cases j)
    case 0
    have "P (cells hp' p) ! i = P (cells hp1 p) ! i"
      using frame1 [of i] by simp
    then show ?thesis
      using 0 ix v hp1_i by simp
  next
    case (Suc k)
    then have k: "k < length es"
      using that by simp
    from IH p k have
      "Suc i + k < length (P (cells hp1 p)) \<and>
       (\<exists>v. DecisionStump_Predict h (es ! k) l = Inr v \<and>
          P (cells hp' p) ! (Suc i + k) =
          P (cells hp1 p) ! (Suc i + k) * exp (hasLabel (es ! k) l * v) / zt h)"
      by blast
    moreover have "length (P (cells hp1 p)) = length (P (cells hp p))"
      by (simp add: hp1_def)
    moreover have "P (cells hp1 p) ! (Suc i + k) = P (cells hp p) ! (Suc i + k)"
      by (rule hp1_nth) simp
    ultimately show ?thesis
      using Suc by simp
  qed
  show ?case
    using nf other len frame effect p by auto
qed

lemma reweight_labels_effect:
  assumes "reweight_labels h dm es ls hp = Inr hp'"
      and "distinct ls"
      and "inj_on dm (set ls)"
  shows "next_free hp' = next_free hp \<and>
         (\<forall>q. (\<forall>l\<in>set ls. dm l \<noteq> Some q) \<longrightarrow> cells hp' q = cells hp q) \<and>
         (\<forall>l\<in>set ls. \<forall>p. dm l = Some p \<longrightarrow>
            length (P (cells hp' p)) = length (P (cells hp p)) \<and>
            (\<forall>j. length es \<le> j \<longrightarrow> P (cells hp' p) ! j = P (cells hp p) ! j) \<and>
            (\<forall>j<length es.
               j < length (P (cells hp p)) \<and>
               (\<exists>v. DecisionStump_Predict h (es ! j) l = Inr v \<and>
                  P (cells hp' p) ! j =
                  P (cells hp p) ! j * exp (hasLabel (es ! j) l * v) / zt h)))"
  using assms
proof (induction ls arbitrary: hp)
  case Nil
  then show ?case by simp
next
  case (Cons a ls)
  from Cons.prems(1) obtain hp1 where
    first: "reweight_examples h dm a 0 es hp = Inr hp1" and
    rest: "reweight_labels h dm es ls hp1 = Inr hp'"
    by (auto split: sum.splits)
  have d: "distinct ls" "a \<notin> set ls" and inj: "inj_on dm (set ls)"
    using Cons.prems(2,3) by (simp_all add: inj_on_def)
  have apart: "dm l \<noteq> dm a" if "l \<in> set ls" for l
    using Cons.prems(3) d(2) that by (auto simp: inj_on_def)
  note E = reweight_examples_effect [OF first]
  note IH = Cons.IH [OF rest d(1) inj]
  have nf: "next_free hp' = next_free hp"
    using E IH by simp
  have other: "cells hp' q = cells hp q" if "\<forall>l\<in>set (a # ls). dm l \<noteq> Some q" for q
  proof -
    have "cells hp' q = cells hp1 q"
      using IH that by simp
    also have "\<dots> = cells hp q"
      using E that by simp
    finally show ?thesis .
  qed
  have head: "length (P (cells hp' p)) = length (P (cells hp p)) \<and>
      (\<forall>j. length es \<le> j \<longrightarrow> P (cells hp' p) ! j = P (cells hp p) ! j) \<and>
      (\<forall>j<length es.
         j < length (P (cells hp p)) \<and>
         (\<exists>v. DecisionStump_Predict h (es ! j) a = Inr v \<and>
            P (cells hp' p) ! j = P (cells hp p) ! j * exp (hasLabel (es ! j) a * v) / zt h))"
    if p: "dm a = Some p" for p
  proof -
    have "\<forall>l\<in>set ls. dm l \<noteq> Some p"
      using apart p by auto
    then have same: "cells hp' p = cells hp1 p"
      using IH by simp
    from E p have
      "length (P (cells hp1 p)) = length (P (cells hp p))"
      "\<And>j. length es \<le> j \<Longrightarrow> P (cells hp1 p) ! j = P (cells hp p) ! j"
      "\<And>j. j < length es \<Longrightarrow> j < length (P (cells hp p)) \<and>
         (\<exists>v. DecisionStump_Predict h (es ! j) a = Inr v \<and>
            P (cells hp1 p) ! j = P (cells hp p) ! j * exp (hasLabel (es ! j) a * v) / zt h)"
      by simp_all
    then show ?thesis
      unfolding same by simp
  qed
  have tail: "length (P (cells hp' p)) = length (P (cells hp p)) \<and>
      (\<forall>j. length es \<le> j \<longrightarrow> P (cells hp' p) ! j = P (cells hp p) ! j) \<and>
      (\<forall>j<length es.
         j < length (P (cells hp p)) \<and>
         (\<exists>v. DecisionStump_Predict h (es ! j) l = Inr v \<and>
            P (cells hp' p) ! j = P (cells hp p) ! j * exp (hasLabel (es ! j) l * v) / zt h))"
    if l: "l \<in> set ls" and p: "dm l = Some p" for l p
  proof -
    have "dm a \<noteq> Some p"
      using apart [OF l] p by simp
    then have same: "cells hp1 p = cells hp p"
      using E by simp
    from IH l p have
      "length (P (cells hp' p)) = length (P (cells hp1 p)) \<and>
       (\<forall>j. length es \<le> j \<longrightarrow> P (cells hp' p) ! j = P (cells hp1 p) ! j) \<and>
       (\<forall>j<length es.
          j < length (P (cells hp1 p)) \<and>
          (\<exists>v. DecisionStump_Predict h (es ! j) l = Inr v \<and>
             P (cells hp' p) ! j = P (cells hp1 p) ! j * exp (hasLabel (es ! j) l * v) / zt h))"
      by blast
    then show ?thesis
      unfolding same .
  qed
  show ?case
    using nf other head tail by auto
qed

lemma reweight_examples_division:
  assumes "reweight_examples h dm l i es hp = Inl DivisionByZero"
  shows "zt h = 0"
  using assms
  by (induction es arbitrary: i hp)
     (auto simp: index_def DecisionStump_Predict_def split: option.splits sum.splits if_splits)

lemma reweight_labels_division:
  assumes "reweight_labels h dm es ls hp = Inl DivisionByZero"
  shows "zt h = 0"
  using assms
  by (induction ls arbitrary: hp) (auto split: sum.splits dest: reweight_examples_division)

text \<open>
  C5 (as stated). One training example carrying the label A and one feature that is
  true of it: the example, feature and label sets are non-empty, \<open>W-\<close> is 0, so
  \<open>zt = 0\<close>, and the first weight update of \<open>Round\<close> divides by zero.
\<close>

theorem Round_divides_by_zero:
  "Examples untrained_A \<noteq> [] \<and> features (Stumper untrained_A) \<noteq> [] \<and>
   labels (Stumper untrained_A) \<noteq> [] \<and>
   untrained_A = fst (NewAdaBoostMH empty_heap [example_A] (NewDecisionStumper [feature_always] [example_A])) \<and>
   heap_A = snd (NewAdaBoostMH empty_heap [example_A] (NewDecisionStumper [feature_always] [example_A])) \<and>
   Round heap_A untrained_A = Inl DivisionByZero"
  by (simp add: Round_A untrained_A_fields stumper_A_eq)
     (simp add: untrained_A_def heap_A_def stumper_A_def)

text \<open>
  C5 (as amended). For an orchestrator over the non-empty training set of its
  stumper, with non-empty feature and label sets and a non-negative weight for every
  example and label: \<open>NewStump\<close> returns a stump, so each of its divisions and
  logarithms is well-defined, the smoothed divisor \<open>1 + W-\<close> and the argument
  \<open>(1 + W+) / (1 + W-)\<close> of the logarithm being positive for every feature and known
  label; and \<open>Round\<close> divides by zero exactly when the \<open>zt\<close> of that stump is 0.
\<close>

theorem smoothing_positive_zt_unguarded:
  assumes "distinct (labels (Stumper a))"
      and "examples (Stumper a) = Examples a"
      and "weights_ok hp (D a) (labels (Stumper a)) (length (Examples a))"
      and "Examples a \<noteq> []"
      and "features (Stumper a) \<noteq> []"
      and "labels (Stumper a) \<noteq> []"
  shows "\<exists>h. NewStump (Stumper a) hp (D a) = Inr h \<and>
           (\<forall>f. \<forall>l\<in>set (labels (Stumper a)).
              0 < 1 + W False (Stumper a) hp (D a) f l \<and>
              0 < (1 + W True (Stumper a) hp (D a) f l) / (1 + W False (Stumper a) hp (D a) f l)) \<and>
           (Round hp a = Inl DivisionByZero \<longleftrightarrow> zt h = 0)"
proof -
  let ?st = "Stumper a"
  have ok: "weights_ok hp (D a) (labels ?st) (length (examples ?st))"
    using assms(2,3) by simp
  from NewStump_ok [OF assms(1) ok] obtain h where
    h: "NewStump ?st hp (D a) = Inr h" and
    zt: "zt h = 2 * (\<Sum>f\<leftarrow>features ?st. Zf ?st hp (D a) f)" and
    none: "Feature h = None \<longrightarrow> (\<forall>f\<in>set (features ?st). MaxFloat64 \<le> Zf ?st hp (D a) f)"
    by (elim exE conjE) (rule that)
  have pos: "0 < 1 + W False ?st hp (D a) f l \<and>
      0 < (1 + W True ?st hp (D a) f l) / (1 + W False ?st hp (D a) f l)"
    if "l \<in> set (labels ?st)" for f l
  proof -
    have "0 \<le> W False ?st hp (D a) f l" "0 \<le> W True ?st hp (D a) f l"
      using W_nonneg [OF ok that] by blast+
    then show ?thesis
      by (simp add: add_pos_nonneg)
  qed
  have "zt h = 0" if "Round hp a = Inl DivisionByZero"
  proof -
    from that h have "reweight_labels h (D a) (Examples a) (labels ?st) hp = Inl DivisionByZero"
      by (auto simp: Round_def split: sum.splits)
    then show ?thesis
      by (rule reweight_labels_division)
  qed
  moreover have "Round hp a = Inl DivisionByZero" if z: "zt h = 0"
  proof -
    have "Feature h \<noteq> None"
    proof
      assume "Feature h = None"
      with none have big: "\<forall>f\<in>set (features ?st). MaxFloat64 \<le> Zf ?st hp (D a) f"
        by blast
      obtain f fs where fs: "features ?st = f # fs"
        using assms(5) by (cases "features ?st") auto
      have "0 \<le> (\<Sum>f\<leftarrow>fs. Zf ?st hp (D a) f)"
        using Zf_nonneg [OF ok] by (intro sum_list_nonneg) auto
      moreover have "MaxFloat64 \<le> Zf ?st hp (D a) f"
        using big fs by simp
      ultimately have "0 < zt h"
        using MaxFloat64_pos by (simp add: zt fs)
      with z show False
        by simp
    qed
    then obtain f where f: "Feature h = Some f"
      by blast
    obtain l ls where ls: "labels ?st = l # ls"
      using assms(6) by (cases "labels ?st") auto
    obtain e es where es: "Examples a = e # es"
      using assms(4) by (cases "Examples a") auto
    from assms(3) obtain p where p: "D a l = Some p" "length (Examples a) \<le> length (P (cells hp p))"
      unfolding weights_ok_iff ls by auto
    have "0 < length (P (cells hp p))"
      using p(2) es by (cases "P (cells hp p)") simp_all
    then have "reweight_examples h (D a) l 0 (e # es) hp = Inl DivisionByZero"
      using p(1) f z by (simp add: index_def DecisionStump_Predict_def)
    then have "reweight_labels h (D a) (Examples a) (labels ?st) hp = Inl DivisionByZero"
      by (simp add: ls es)
    then show ?thesis
      using h by (simp add: Round_def)
  qed
  ultimately show ?thesis
    using h pos by blast
qed

theorem smoothing_positive_zt_unguarded_witness:
  "distinct (labels (Stumper untrained_AU)) \<and>
   examples (Stumper untrained_AU) = Examples untrained_AU \<and>
   weights_ok heap_AU (D untrained_AU) (labels (Stumper untrained_AU)) (length (Examples untrained_AU)) \<and>
   Examples untrained_AU \<noteq> [] \<and> features (Stumper untrained_AU) \<noteq> [] \<and>
   labels (Stumper untrained_AU) \<noteq> [] \<and>
   (\<exists>h. NewStump (Stumper untrained_AU) heap_AU (D untrained_AU) = Inr h \<and>
      (Round heap_AU untrained_AU = Inl DivisionByZero \<longleftrightarrow> zt h = 0))"
proof -
  have 1: "distinct (labels (Stumper untrained_AU))"
    by (simp add: untrained_AU_fields)
  have 2: "examples (Stumper untrained_AU) = Examples untrained_AU"
    by (simp add: untrained_AU_fields stumper_AU_eq)
  have 3: "weights_ok heap_AU (D untrained_AU) (labels (Stumper untrained_AU))
      (length (Examples untrained_AU))"
    by (simp add: weights_ok_def untrained_AU_fields heap_cells)
  have 4: "Examples untrained_AU \<noteq> []"
    by (simp add: untrained_AU_fields)
  have 5: "features (Stumper untrained_AU) \<noteq> []"
    by (simp add: untrained_AU_fields stumper_AU_eq)
  have 6: "labels (Stumper untrained_AU) \<noteq> []"
    by (simp add: untrained_AU_fields)
  from smoothing_positive_zt_unguarded [OF 1 2 3 4 5 6] 1 2 3 4 5 6 show ?thesis
    by blast
qed

subsection \<open>The states of a training run\<close>

text \<open>The hypotheses of the theorems above hold of every state of a training run:
  \<open>NewAdaBoostMH\<close> establishes them and a round that completes keeps them.\<close>

lemma alloc_uniform_effect:
  assumes "alloc_uniform n ls (dm, hp) = (dm', hp')"
      and "distinct ls"
  shows "next_free hp \<le> next_free hp' \<and>
         (\<forall>q<next_free hp. cells hp' q = cells hp q) \<and>
         (\<forall>l. l \<notin> set ls \<longrightarrow> dm' l = dm l) \<and>
         (\<forall>l\<in>set ls. \<exists>p. dm' l = Some p \<and> next_free hp \<le> p \<and>
            cells hp' p = UniformDistribution n) \<and>
         inj_on dm' (set ls)"
  using assms
proof (induction ls arbitrary: dm hp)
  case Nil
  then show ?case by simp
next
  case (Cons a ls)
  define p0 where "p0 = next_free hp"
  define hp1 where "hp1 = hp\<lparr>cells := (cells hp)(p0 := UniformDistribution n), next_free := Suc p0\<rparr>"
  have rest: "alloc_uniform n ls (dm(a \<mapsto> p0), hp1) = (dm', hp')"
    using Cons.prems(1) by (simp add: alloc_def p0_def hp1_def)
  have d: "distinct ls" "a \<notin> set ls"
    using Cons.prems(2) by simp_all
  note IH = Cons.IH [OF rest d(1)]
  have nf: "next_free hp \<le> next_free hp'"
    using IH by (simp add: hp1_def p0_def)
  have below: "cells hp' q = cells hp q" if "q < next_free hp" for q
    using IH that by (simp add: hp1_def p0_def)
  have out: "dm' l = dm l" if "l \<notin> set (a # ls)" for l
    using IH that by simp
  have head: "dm' a = Some p0" "cells hp' p0 = UniformDistribution n"
    using IH d(2) by (simp_all add: hp1_def)
  have tail: "\<exists>p. dm' l = Some p \<and> Suc p0 \<le> p \<and> cells hp' p = UniformDistribution n"
    if "l \<in> set ls" for l
    using IH that by (simp add: hp1_def)
  have "inj_on dm' (insert a (set ls))"
  proof (rule inj_onI)
    fix x y
    assume x: "x \<in> insert a (set ls)" and y: "y \<in> insert a (set ls)" and eq: "dm' x = dm' y"
    have inj: "inj_on dm' (set ls)"
      using IH by simp
    show "x = y"
    proof (cases "x = a")
      case True
      show ?thesis
      proof (cases "y = a")
        case True
        with \<open>x = a\<close> show ?thesis by simp
      next
        case False
        with y tail [of y] head(1) eq \<open>x = a\<close> show ?thesis by auto
      qed
    next
      case False
      show ?thesis
      proof (cases "y = a")
        case True
        with x False tail [of x] head(1) eq show ?thesis by auto
      next
        case ny: False
        with x y False inj eq show ?thesis by (auto dest: inj_onD)
      qed
    qed
  qed
  moreover have "\<forall>l\<in>set (a # ls). \<exists>p. dm' l = Some p \<and> next_free hp \<le> p \<and>
      cells hp' p = UniformDistribution n"
  proof
    fix l assume "l \<in> set (a # ls)"
    then consider "l = a" | "l \<in> set ls"
      by auto
    then show "\<exists>p. dm' l = Some p \<and> next_free hp \<le> p \<and> cells hp' p = UniformDistribution n"
    proof cases
      case 1
      then show ?thesis
        using head by (simp add: p0_def)
    next
      case 2
      from tail [OF 2] obtain p where
        "dm' l = Some p" "Suc p0 \<le> p" "cells hp' p = UniformDistribution n"
        by blast
      then show ?thesis
        by (auto simp: p0_def)
    qed
  qed
  ultimately show ?case
    using nf below out by simp
qed

lemma NewAdaBoostMH_well_formed:
  assumes "NewAdaBoostMH hp es learner = (a, hp')"
      and "distinct (labels learner)"
  shows "Examples a = es \<and> Stumper a = learner \<and> H a = [] \<and>
         inj_on (D a) (set (labels learner)) \<and>
         weights_ok hp' (D a) (labels learner) (length es)"
proof -
  from assms(1) obtain dm where
    al: "alloc_uniform (length es) (labels learner) (Map.empty, hp) = (dm, hp')" and
    a: "a = \<lparr>Examples = es, Stumper = learner, D = dm, H = []\<rparr>"
    by (auto simp: NewAdaBoostMH_def split: prod.splits)
  note E = alloc_uniform_effect [OF al assms(2)]
  have "weights_ok hp' dm (labels learner) (length es)"
    unfolding weights_ok_iff using E by (auto simp: UniformDistribution_def)
  then show ?thesis
    using E a by simp
qed

lemma Round_keeps_well_formed:
  assumes "Round hp a = Inr (a', hp')"
      and "distinct (labels (Stumper a))"
      and "inj_on (D a) (set (labels (Stumper a)))"
      and "examples (Stumper a) = Examples a"
      and "weights_ok hp (D a) (labels (Stumper a)) (length (Examples a))"
  shows "Examples a' = Examples a \<and> Stumper a' = Stumper a \<and> D a' = D a \<and>
         weights_ok hp' (D a') (labels (Stumper a')) (length (Examples a'))"
proof -
  let ?st = "Stumper a"
  have ok: "weights_ok hp (D a) (labels ?st) (length (examples ?st))"
    using assms(4,5) by simp
  from assms(1) obtain h where
    h: "NewStump ?st hp (D a) = Inr h" and
    rw: "reweight_labels h (D a) (Examples a) (labels ?st) hp = Inr hp'" and
    a': "a' = a\<lparr>H := H a @ [h]\<rparr>"
    by (auto simp: Round_def split: sum.splits)
  from NewStump_ok [OF assms(2) ok] h have zt: "zt h = 2 * (\<Sum>f\<leftarrow>features ?st. Zf ?st hp (D a) f)"
    by auto
  have "0 \<le> (\<Sum>f\<leftarrow>features ?st. Zf ?st hp (D a) f)"
    using Zf_nonneg [OF ok] by (intro sum_list_nonneg) auto
  then have zt0: "0 \<le> zt h"
    by (simp add: zt)
  note E = reweight_labels_effect [OF rw assms(2,3)]
  have "\<exists>p. D a l = Some p \<and> length (Examples a) \<le> length (P (cells hp' p)) \<and>
      (\<forall>i<length (Examples a). 0 \<le> P (cells hp' p) ! i)"
    if l: "l \<in> set (labels ?st)" for l
  proof -
    from assms(5) l obtain p where
      p: "D a l = Some p" "length (Examples a) \<le> length (P (cells hp p))"
      "\<And>i. i < length (Examples a) \<Longrightarrow> 0 \<le> P (cells hp p) ! i"
      unfolding weights_ok_iff by blast
    have "0 \<le> P (cells hp' p) ! i" if i: "i < length (Examples a)" for i
    proof -
      from E l p(1) i obtain v where
        "P (cells hp' p) ! i = P (cells hp p) ! i * exp (hasLabel (Examples a ! i) l * v) / zt h"
        by blast
      then show ?thesis
        using p(3) [OF i] zt0 by simp
    qed
    moreover have "length (P (cells hp' p)) = length (P (cells hp p))"
      using E l p(1) by blast
    ultimately show ?thesis
      using p(1,2) by simp
  qed
  then have "weights_ok hp' (D a) (labels ?st) (length (Examples a))"
    unfolding weights_ok_iff by blast
  then show ?thesis
    by (simp add: a')
qed

section \<open>A round with IEEE's special values\<close>

subsection \<open>NewStump returns unless it panics\<close>

lemma has_weights_iff:
  "has_weights hp ds ls n \<longleftrightarrow>
   (\<forall>l\<in>set ls. \<exists>p. ds l = Some p \<and> n \<le> length (P64 (cells64 hp p)))"
proof -
  have "(case ds l of None \<Rightarrow> False | Some p \<Rightarrow> n \<le> length (P64 (cells64 hp p))) \<longleftrightarrow>
        (\<exists>p. ds l = Some p \<and> n \<le> length (P64 (cells64 hp p)))" for l
    by (cases "ds l") auto
  then show ?thesis
    unfolding has_weights_def list_all_iff by simp
qed

lemma add_w_labels64_returns:
  assumes "\<forall>l\<in>set ls. \<exists>p. ds l = Some p \<and> i < length (P64 (cells64 hp p))"
  shows "\<exists>w'. add_w_labels64 hp ds f i e ls w = Inr w'"
  using assms
proof (induction ls arbitrary: w)
  case Nil
  show ?case by simp
next
  case (Cons a ls)
  from Cons.prems obtain p where p: "ds a = Some p" "i < length (P64 (cells64 hp p))"
    by auto
  have rest: "\<forall>l\<in>set ls. \<exists>p. ds l = Some p \<and> i < length (P64 (cells64 hp p))"
    using Cons.prems by simp
  show ?case
    using p Cons.IH [OF rest] by (simp add: index64_def)
qed

lemma add_w_examples64_returns:
  assumes "\<forall>l\<in>set ls. \<exists>p. ds l = Some p \<and> i + length es \<le> length (P64 (cells64 hp p))"
  shows "\<exists>w'. add_w_examples64 hp ds f ls i es w = Inr w'"
  using assms
proof (induction es arbitrary: i w)
  case Nil
  show ?case by simp
next
  case (Cons e es)
  have rest: "\<forall>l\<in>set ls. \<exists>p. ds l = Some p \<and> Suc i + length es \<le> length (P64 (cells64 hp p))"
    using Cons.prems by simp
  have here: "\<forall>l\<in>set ls. \<exists>p. ds l = Some p \<and> i < length (P64 (cells64 hp p))"
    using Cons.prems by fastforce
  from add_w_labels64_returns [OF here, of f e w] obtain w1 where
    w1: "add_w_labels64 hp ds f i e ls w = Inr w1"
    by blast
  show ?case
    using w1 Cons.IH [OF rest, of w] Cons.IH [OF rest, of w1] by simp
qed

lemma compute_w64_returns:
  assumes "\<forall>l\<in>set ls. \<exists>p. ds l = Some p \<and> length es \<le> length (P64 (cells64 hp p))"
  shows "\<exists>w'. compute_w64 hp ds ls es fs w = Inr w'"
  using assms
proof (induction fs arbitrary: w)
  case Nil
  show ?case by simp
next
  case (Cons f fs)
  have len: "\<forall>l\<in>set ls. \<exists>p. ds l = Some p \<and> 0 + length es \<le> length (P64 (cells64 hp p))"
    using Cons.prems by simp
  from add_w_examples64_returns [OF len, of f "init_w64 f ls w"] obtain w1 where
    "add_w_examples64 hp ds f ls 0 es (init_w64 f ls w) = Inr w1"
    by blast
  then show ?case
    using Cons.IH [OF Cons.prems, of w1] by simp
qed

lemma NewStump64_returns:
  assumes "has_weights hp ds (labels st) (length (examples st))"
  shows "\<exists>h. NewStump64 st hp ds = Inr h"
proof -
  have "\<forall>l\<in>set (labels st). \<exists>p. ds l = Some p \<and> length (examples st) \<le> length (P64 (cells64 hp p))"
    using assms by (simp add: has_weights_iff)
  from compute_w64_returns [OF this, of "features st" Map.empty] obtain w where
    "compute_w64 hp ds (labels st) (examples st) (features st) Map.empty = Inr w"
    by blast
  then show ?thesis
    by (simp add: NewStump64_def split: prod.splits)
qed

subsection \<open>The reweighting\<close>

lemma reweight_examples64_effect:
  assumes "reweight_examples64 h dm l i es hp = Inr hp'"
  shows "next_free64 hp' = next_free64 hp \<and>
         (\<forall>q. length (P64 (cells64 hp' q)) = length (P64 (cells64 hp q))) \<and>
         (\<forall>q. dm l \<noteq> Some q \<longrightarrow> cells64 hp' q = cells64 hp q) \<and>
         (\<forall>p. dm l = Some p \<longrightarrow>
            (\<forall>j. j < i \<or> i + length es \<le> j \<longrightarrow> P64 (cells64 hp' p) ! j = P64 (cells64 hp p) ! j) \<and>
            (\<forall>j<length es.
               i + j < length (P64 (cells64 hp p)) \<and>
               (\<exists>v. DecisionStump_Predict64 h (es ! j) l = Inr v \<and>
                  P64 (cells64 hp' p) ! (i + j) =
                  fmul (P64 (cells64 hp p) ! (i + j))
                    (fdiv (fexp (fmul (hasLabel64 (es ! j) l) v)) (zt64 h)))))"
  using assms
proof (induction es arbitrary: i hp)
  case Nil
  then show ?case by simp
next
  case (Cons e es)
  from Cons.prems obtain p v where
    p: "dm l = Some p" and
    ix: "i < length (P64 (cells64 hp p))" and
    v: "DecisionStump_Predict64 h e l = Inr v"
    by (auto simp: index64_def split: option.splits sum.splits if_splits)
  define hp1 where "hp1 = hp\<lparr>cells64 := (cells64 hp)
      (p := (cells64 hp p)\<lparr>P64 := (P64 (cells64 hp p))
         [i := fmul (P64 (cells64 hp p) ! i) (fdiv (fexp (fmul (hasLabel64 e l) v)) (zt64 h))]\<rparr>)\<rparr>"
  have rest: "reweight_examples64 h dm l (Suc i) es hp1 = Inr hp'"
    using Cons.prems p ix v by (simp add: index64_def hp1_def)
  note IH = Cons.IH [OF rest]
  have nf: "next_free64 hp' = next_free64 hp"
    using IH by (simp add: hp1_def)
  have len1: "length (P64 (cells64 hp1 q)) = length (P64 (cells64 hp q))" for q
    by (simp add: hp1_def)
  have len: "length (P64 (cells64 hp' q)) = length (P64 (cells64 hp q))" for q
    using IH len1 [of q] by simp
  have other: "cells64 hp' q = cells64 hp q" if "dm l \<noteq> Some q" for q
    using IH that p by (auto simp: hp1_def)
  have frame1: "P64 (cells64 hp' p) ! j = P64 (cells64 hp1 p) ! j"
    if "j < Suc i \<or> Suc i + length es \<le> j" for j
    using IH p that by blast
  have hp1_nth: "P64 (cells64 hp1 p) ! j = P64 (cells64 hp p) ! j" if "j \<noteq> i" for j
    using that by (simp add: hp1_def)
  have hp1_i: "P64 (cells64 hp1 p) ! i =
      fmul (P64 (cells64 hp p) ! i) (fdiv (fexp (fmul (hasLabel64 e l) v)) (zt64 h))"
    using ix by (simp add: hp1_def)
  have frame: "P64 (cells64 hp' p) ! j = P64 (cells64 hp p) ! j"
    if "j < i \<or> i + length (e # es) \<le> j" for j
  proof -
    have "j < Suc i \<or> Suc i + length es \<le> j" "j \<noteq> i"
      using that by auto
    then show ?thesis
      using frame1 [of j] hp1_nth [of j] by simp
  qed
  have effect: "i + j < length (P64 (cells64 hp p)) \<and>
      (\<exists>v. DecisionStump_Predict64 h ((e # es) ! j) l = Inr v \<and>
         P64 (cells64 hp' p) ! (i + j) =
         fmul (P64 (cells64 hp p) ! (i + j))
           (fdiv (fexp (fmul (hasLabel64 ((e # es) ! j) l) v)) (zt64 h)))"
    if "j < length (e # es)" for j
  proof (cases j)
    case 0
    have "P64 (cells64 hp' p) ! i = P64 (cells64 hp1 p) ! i"
      using frame1 [of i] by simp
    then show ?thesis
      using 0 ix v hp1_i by simp
  next
    case (Suc k)
    then have k: "k < length es"
      using that by simp
    from IH p k have
      "Suc i + k < length (P64 (cells64 hp1 p)) \<and>
       (\<exists>v. DecisionStump_Predict64 h (es ! k) l = Inr v \<and>
          P64 (cells64 hp' p) ! (Suc i + k) =
          fmul (P64 (cells64 hp1 p) ! (Suc i + k))
            (fdiv (fexp (fmul (hasLabel64 (es ! k) l) v)) (zt64 h)))"
      by blast
    moreover have "P64 (cells64 hp1 p) ! (Suc i + k) = P64 (cells64 hp p) ! (Suc i + k)"
      by (rule hp1_nth) simp
    ultimately show ?thesis
      using Suc len1 [of p] by simp
  qed
  show ?case
    using nf other len frame effect p by auto
qed

lemma reweight_examples64_returns:
  assumes "dm l = Some p"
      and "i + length es \<le> length (P64 (cells64 hp p))"
      and "Feature64 h = Some f"
  shows "\<exists>hp'. reweight_examples64 h dm l i es hp = Inr hp'"
  using assms(2)
proof (induction es arbitrary: i hp)
  case Nil
  show ?case by simp
next
  case (Cons e es)
  obtain v where v: "DecisionStump_Predict64 h e l = Inr v"
    using assms(3) by (cases "Test f e") (simp_all add: DecisionStump_Predict64_def)
  define hp1 where "hp1 = hp\<lparr>cells64 := (cells64 hp)
      (p := (cells64 hp p)\<lparr>P64 := (P64 (cells64 hp p))
         [i := fmul (P64 (cells64 hp p) ! i) (fdiv (fexp (fmul (hasLabel64 e l) v)) (zt64 h))]\<rparr>)\<rparr>"
  have ix: "i < length (P64 (cells64 hp p))"
    using Cons.prems by simp
  have step: "reweight_examples64 h dm l i (e # es) hp = reweight_examples64 h dm l (Suc i) es hp1"
    using assms(1) ix v by (simp add: index64_def hp1_def)
  have "Suc i + length es \<le> length (P64 (cells64 hp1 p))"
    using Cons.prems by (simp add: hp1_def)
  from Cons.IH [OF this] show ?case
    unfolding step .
qed

lemma reweight_labels64_no_examples:
  "reweight_labels64 h dm [] ls hp = Inr hp"
  by (induction ls) simp_all

lemma reweight_labels64_returns:
  assumes "\<forall>l\<in>set ls. \<exists>p. dm l = Some p \<and> length es \<le> length (P64 (cells64 hp p))"
      and "Feature64 h = Some f"
  shows "\<exists>hp'. reweight_labels64 h dm es ls hp = Inr hp'"
  using assms(1)
proof (induction ls arbitrary: hp)
  case Nil
  show ?case by simp
next
  case (Cons a ls)
  from Cons.prems obtain p where p: "dm a = Some p" "0 + length es \<le> length (P64 (cells64 hp p))"
    by auto
  from reweight_examples64_returns [of dm a p 0 es hp h f, OF p assms(2)] obtain hp1 where
    hp1: "reweight_examples64 h dm a 0 es hp = Inr hp1"
    by blast
  have "\<forall>q. length (P64 (cells64 hp1 q)) = length (P64 (cells64 hp q))"
    using reweight_examples64_effect [OF hp1] by blast
  then have "\<forall>l\<in>set ls. \<exists>p. dm l = Some p \<and> length es \<le> length (P64 (cells64 hp1 p))"
    using Cons.prems by simp
  from Cons.IH [OF this] show ?case
    using hp1 by simp
qed

lemma reweight_labels64_effect:
  assumes "reweight_labels64 h dm es ls hp = Inr hp'"
      and "distinct ls"
      and "inj_on dm (set ls)"
  shows "next_free64 hp' = next_free64 hp \<and>
         (\<forall>q. length (P64 (cells64 hp' q)) = length (P64 (cells64 hp q))) \<and>
         (\<forall>q. (\<forall>l\<in>set ls. dm l \<noteq> Some q) \<longrightarrow> cells64 hp' q = cells64 hp q) \<and>
         (\<forall>l\<in>set ls. \<forall>p. dm l = Some p \<longrightarrow>
            (\<forall>j. length es \<le> j \<longrightarrow> P64 (cells64 hp' p) ! j = P64 (cells64 hp p) ! j) \<and>
            (\<forall>j<length es.
               \<exists>v. DecisionStump_Predict64 h (es ! j) l = Inr v \<and>
                  P64 (cells64 hp' p) ! j =
                  fmul (P64 (cells64 hp p) ! j)
                    (fdiv (fexp (fmul (hasLabel64 (es ! j) l) v)) (zt64 h))))"
  using assms
proof (induction ls arbitrary: hp)
  case Nil
  then show ?case by simp
next
  case (Cons a ls)
  from Cons.prems(1) obtain hp1 where
    first: "reweight_examples64 h dm a 0 es hp = Inr hp1" and
    rest: "reweight_labels64 h dm es ls hp1 = Inr hp'"
    by (auto split: sum.splits)
  have d: "distinct ls" "a \<notin> set ls" and inj: "inj_on dm (set ls)"
    using Cons.prems(2,3) by (simp_all add: inj_on_def)
  have apart: "dm l \<noteq> dm a" if "l \<in> set ls" for l
    using Cons.prems(3) d(2) that by (auto simp: inj_on_def)
  note E = reweight_examples64_effect [OF first]
  note IH = Cons.IH [OF rest d(1) inj]
  have nf: "next_free64 hp' = next_free64 hp"
    using E IH by simp
  have len: "length (P64 (cells64 hp' q)) = length (P64 (cells64 hp q))" for q
    using E IH by simp
  have other: "cells64 hp' q = cells64 hp q" if "\<forall>l\<in>set (a # ls). dm l \<noteq> Some q" for q
  proof -
    have "cells64 hp' q = cells64 hp1 q"
      using IH that by simp
    also have "\<dots> = cells64 hp q"
      using E that by simp
    finally show ?thesis .
  qed
  have head: "(\<forall>j. length es \<le> j \<longrightarrow> P64 (cells64 hp' p) ! j = P64 (cells64 hp p) ! j) \<and>
      (\<forall>j<length es.
         \<exists>v. DecisionStump_Predict64 h (es ! j) a = Inr v \<and>
            P64 (cells64 hp' p) ! j =
            fmul (P64 (cells64 hp p) ! j) (fdiv (fexp (fmul (hasLabel64 (es ! j) a) v)) (zt64 h)))"
    if p: "dm a = Some p" for p
  proof -
    have "\<forall>l\<in>set ls. dm l \<noteq> Some p"
      using apart p by auto
    then have same: "cells64 hp' p = cells64 hp1 p"
      using IH by simp
    from E p have
      "\<And>j. length es \<le> j \<Longrightarrow> P64 (cells64 hp1 p) ! j = P64 (cells64 hp p) ! j"
      "\<And>j. j < length es \<Longrightarrow>
         \<exists>v. DecisionStump_Predict64 h (es ! j) a = Inr v \<and>
            P64 (cells64 hp1 p) ! j =
            fmul (P64 (cells64 hp p) ! j) (fdiv (fexp (fmul (hasLabel64 (es ! j) a) v)) (zt64 h))"
      by simp_all
    then show ?thesis
      unfolding same by simp
  qed
  have tail: "(\<forall>j. length es \<le> j \<longrightarrow> P64 (cells64 hp' p) ! j = P64 (cells64 hp p) ! j) \<and>
      (\<forall>j<length es.
         \<exists>v. DecisionStump_Predict64 h (es ! j) l = Inr v \<and>
            P64 (cells64 hp' p) ! j =
            fmul (P64 (cells64 hp p) ! j) (fdiv (fexp (fmul (hasLabel64 (es ! j) l) v)) (zt64 h)))"
    if l: "l \<in> set ls" and p: "dm l = Some p" for l p
  proof -
    have "dm a \<noteq> Some p"
      using apart [OF l] p by simp
    then have same: "cells64 hp1 p = cells64 hp p"
      using E by simp
    from IH l p have
      "(\<forall>j. length es \<le> j \<longrightarrow> P64 (cells64 hp' p) ! j = P64 (cells64 hp1 p) ! j) \<and>
       (\<forall>j<length es.
          \<exists>v. DecisionStump_Predict64 h (es ! j) l = Inr v \<and>
             P64 (cells64 hp' p) ! j =
             fmul (P64 (cells64 hp1 p) ! j) (fdiv (fexp (fmul (hasLabel64 (es ! j) l) v)) (zt64 h)))"
      by blast
    then show ?thesis
      unfolding same .
  qed
  show ?case
    using nf len other head tail by auto
qed

subsection \<open>The two-label inputs evaluated\<close>

lemma example_B_simps [simp]:
  "HasLabel example_B l = (l = ''B'')" "Labels example_B = [''B'']"
  by (simp_all add: example_B_def)

lemma stumper_AB_eq:
  "stumper_AB = \<lparr>labels = [''A'', ''B''], features = [feature_always, feature_has_A],
     examples = [example_A, example_B]\<rparr>"
  by (simp add: stumper_AB_def NewDecisionStumper_def add_label_def)

lemma untrained_AB_fields:
  "Examples64 untrained_AB = [example_A, example_B]" "Stumper64 untrained_AB = stumper_AB"
  "D64 untrained_AB = [''A'' \<mapsto> 0, ''B'' \<mapsto> Suc 0]" "H64 untrained_AB = []"
  "labels stumper_AB = [''A'', ''B'']" "examples stumper_AB = [example_A, example_B]"
  by (simp_all add: untrained_AB_def NewAdaBoostMH64_def stumper_AB_eq alloc64_def
      empty_heap64_def)

lemma heap_AB_cells:
  "cells64 heap_AB 0 = \<lparr>P64 = [Finite (1/2), Finite (1/2)]\<rparr>"
  "cells64 heap_AB (Suc 0) = \<lparr>P64 = [Finite (1/2), Finite (1/2)]\<rparr>"
  by (simp_all add: heap_AB_def NewAdaBoostMH64_def stumper_AB_eq alloc64_def empty_heap64_def
      UniformDistribution64_def numeral_2_eq_2)

lemma NewStump64_AB:
  "NewStump64 stumper_AB heap_AB [''A'' \<mapsto> 0, ''B'' \<mapsto> Suc 0] =
   Inr \<lparr>Feature64 = Some feature_has_A,
        c64 = [''A'' \<mapsto> Finite (0.5 * ln (3/2)), ''B'' \<mapsto> Finite (0.5 * ln (2/3))],
        zt64 = Finite 2\<rparr>"
  using MaxFloat64_pos
  by (simp add: NewStump64_def stumper_AB_eq heap_AB_cells index64_def lookup64_def sqrt_quarter
      Let_def)

lemma Round64_AB:
  "Round64 heap_AB untrained_AB =
   Inr (untrained_AB\<lparr>H64 :=
          [\<lparr>Feature64 = Some feature_has_A,
            c64 = [''A'' \<mapsto> Finite (0.5 * ln (3/2)), ''B'' \<mapsto> Finite (0.5 * ln (2/3))],
            zt64 = Finite 2\<rparr>]\<rparr>,
        heap_AB\<lparr>cells64 := (cells64 heap_AB)
          (0 := \<lparr>P64 = [Finite (1/2 * (exp (1 * (0.5 * ln (3/2))) / 2)),
                         Finite (1/2 * (exp (- 1 * - 1) / 2))]\<rparr>,
           Suc 0 := \<lparr>P64 = [Finite (1/2 * (exp (- 1 * (0.5 * ln (2/3))) / 2)),
                             Finite (1/2 * (exp (1 * - 1) / 2))]\<rparr>)\<rparr>)"
  by (simp add: Round64_def untrained_AB_fields NewStump64_AB heap_AB_cells index64_def
      DecisionStump_Predict64_def hasLabel64_def lookup64_def)

lemma stumper_AABB_eq:
  "stumper_AABB = \<lparr>labels = [''A'', ''B''], features = [feature_has_A],
     examples = [example_A, example_A, example_B, example_B]\<rparr>"
  by (simp add: stumper_AABB_def NewDecisionStumper_def add_label_def)

lemma untrained_AABB_fields:
  "Examples64 untrained_AABB = [example_A, example_A, example_B, example_B]"
  "Stumper64 untrained_AABB = stumper_AABB"
  "D64 untrained_AABB = [''A'' \<mapsto> 0, ''B'' \<mapsto> Suc 0]" "H64 untrained_AABB = []"
  "labels stumper_AABB = [''A'', ''B'']"
  "examples stumper_AABB = [example_A, example_A, example_B, example_B]"
  by (simp_all add: untrained_AABB_def NewAdaBoostMH64_def stumper_AABB_eq alloc64_def
      empty_heap64_def)

lemma heap_AABB_cells:
  "cells64 heap_AABB 0 = \<lparr>P64 = [Finite (1/4), Finite (1/4), Finite (1/4), Finite (1/4)]\<rparr>"
  "cells64 heap_AABB (Suc 0) = \<lparr>P64 = [Finite (1/4), Finite (1/4), Finite (1/4), Finite (1/4)]\<rparr>"
  by (simp_all add: heap_AABB_def NewAdaBoostMH64_def stumper_AABB_eq alloc64_def
      empty_heap64_def UniformDistribution64_def eval_nat_numeral)

lemma NewStump64_AABB:
  "NewStump64 stumper_AABB heap_AABB [''A'' \<mapsto> 0, ''B'' \<mapsto> Suc 0] =
   Inr \<lparr>Feature64 = Some feature_has_A,
        c64 = [''A'' \<mapsto> Finite (0.5 * ln (3/2)), ''B'' \<mapsto> Finite (0.5 * ln (2/3))],
        zt64 = Finite 0\<rparr>"
  using MaxFloat64_pos
  by (simp add: NewStump64_def stumper_AABB_eq heap_AABB_cells index64_def lookup64_def Let_def)

text \<open>The round on this input, which has \<open>zt = 0\<close>, completes: every weight becomes
  \<open>+Inf\<close> and the stump is appended.\<close>

lemma Round64_AABB:
  "Round64 heap_AABB untrained_AABB =
   Inr (untrained_AABB\<lparr>H64 :=
          [\<lparr>Feature64 = Some feature_has_A,
            c64 = [''A'' \<mapsto> Finite (0.5 * ln (3/2)), ''B'' \<mapsto> Finite (0.5 * ln (2/3))],
            zt64 = Finite 0\<rparr>]\<rparr>,
        heap_AABB\<lparr>cells64 := (cells64 heap_AABB)
          (0 := \<lparr>P64 = [PosInf, PosInf, PosInf, PosInf]\<rparr>,
           Suc 0 := \<lparr>P64 = [PosInf, PosInf, PosInf, PosInf]\<rparr>)\<rparr>)"
  by (simp add: Round64_def untrained_AABB_fields NewStump64_AABB heap_AABB_cells index64_def
      DecisionStump_Predict64_def hasLabel64_def lookup64_def inf_of_sign_def)

subsection \<open>The round\<close>

text \<open>
  C6. Let the known labels (the keys of a map, hence distinct) point to distributions
  of their own with a weight for every example, as \<open>NewAdaBoostMH\<close> allocates them.
  Then \<open>NewStump\<close> returns a stump \<open>h\<close> for the distributions as they are before the
  round. If \<open>h\<close> has no feature and there is a label and an example to reweight, the
  round panics on the nil feature. In every other case the round completes,
  whatever the value of \<open>zt\<close>: it leaves the orchestrator unchanged but for \<open>h\<close>
  appended to the end of the ensemble; in the distribution that a known label \<open>l\<close>
  points to it replaces the weight \<open>D\<^sub>l[i]\<close> of every training example \<open>i\<close> by
  \<open>D\<^sub>l[i] * (exp (y * v) / zt)\<close>, where \<open>y\<close> is 1 if the example carries \<open>l\<close> and -1
  otherwise, \<open>v\<close> is the prediction of \<open>h\<close> (the confidence stored for \<open>l\<close> if the
  feature of \<open>h\<close> is true of the example, and -1 if not) and \<open>zt\<close> is that of \<open>h\<close>;
  and it changes no other distribution.
\<close>

theorem Round64_reweights:
  assumes "distinct (labels (Stumper64 a))"
      and "inj_on (D64 a) (set (labels (Stumper64 a)))"
      and "has_weights hp (D64 a) (labels (Stumper64 a)) (length (examples (Stumper64 a)))"
      and "has_weights hp (D64 a) (labels (Stumper64 a)) (length (Examples64 a))"
  shows "\<exists>h. NewStump64 (Stumper64 a) hp (D64 a) = Inr h \<and>
           (if Feature64 h = None \<and> labels (Stumper64 a) \<noteq> [] \<and> Examples64 a \<noteq> []
            then Round64 hp a = Inl NilDereference
            else \<exists>hp'. Round64 hp a = Inr (a\<lparr>H64 := H64 a @ [h]\<rparr>, hp') \<and>
                   (\<forall>q. (\<forall>l\<in>set (labels (Stumper64 a)). D64 a l \<noteq> Some q) \<longrightarrow>
                      cells64 hp' q = cells64 hp q) \<and>
                   (\<forall>l\<in>set (labels (Stumper64 a)). \<forall>i<length (Examples64 a).
                      \<exists>p f v. D64 a l = Some p \<and> Feature64 h = Some f \<and>
                        DecisionStump_Predict64 h (Examples64 a ! i) l = Inr v \<and>
                        v = (if Test f (Examples64 a ! i) then lookup64 (c64 h) l else Finite (- 1)) \<and>
                        length (P64 (cells64 hp' p)) = length (P64 (cells64 hp p)) \<and>
                        P64 (cells64 hp' p) ! i =
                          fmul (P64 (cells64 hp p) ! i)
                            (fdiv (fexp (fmul (Finite (if HasLabel (Examples64 a ! i) l then 1 else - 1)) v))
                                  (zt64 h))))"
proof -
  let ?ls = "labels (Stumper64 a)" and ?es = "Examples64 a"
  from NewStump64_returns [OF assms(3)] obtain h where
    h: "NewStump64 (Stumper64 a) hp (D64 a) = Inr h"
    by blast
  have ptr: "\<forall>l\<in>set ?ls. \<exists>p. D64 a l = Some p \<and> length ?es \<le> length (P64 (cells64 hp p))"
    using assms(4) by (simp add: has_weights_iff)
  have round: "Round64 hp a =
      (case reweight_labels64 h (D64 a) ?es ?ls hp of
         Inl err \<Rightarrow> Inl err
       | Inr hp' \<Rightarrow> Inr (a\<lparr>H64 := H64 a @ [h]\<rparr>, hp'))"
    by (simp add: Round64_def h)
  show ?thesis
  proof (cases "Feature64 h = None \<and> ?ls \<noteq> [] \<and> ?es \<noteq> []")
    case True
    then obtain l ls e es where ls: "?ls = l # ls" and es: "?es = e # es"
      by (auto simp: neq_Nil_conv)
    from ptr ls obtain p where p: "D64 a l = Some p" "length ?es \<le> length (P64 (cells64 hp p))"
      by auto
    have "0 < length (P64 (cells64 hp p))"
      using p(2) es by (cases "P64 (cells64 hp p)") simp_all
    then have "reweight_examples64 h (D64 a) l 0 (e # es) hp = Inl NilDereference"
      using p(1) True by (simp add: index64_def DecisionStump_Predict64_def)
    then have "Round64 hp a = Inl NilDereference"
      unfolding round by (simp add: ls es)
    then show ?thesis
      using h True by auto
  next
    case False
    have ret: "\<exists>hp'. reweight_labels64 h (D64 a) ?es ?ls hp = Inr hp'"
    proof (cases "Feature64 h")
      case (Some f)
      from reweight_labels64_returns [OF ptr Some] show ?thesis .
    next
      case None
      with False consider "?ls = []" | "?es = []"
        by blast
      then show ?thesis
        by cases (simp_all add: reweight_labels64_no_examples)
    qed
    then obtain hp' where hp': "reweight_labels64 h (D64 a) ?es ?ls hp = Inr hp'"
      by blast
    note E = reweight_labels64_effect [OF hp' assms(1,2)]
    have upd: "\<exists>p f v. D64 a l = Some p \<and> Feature64 h = Some f \<and>
        DecisionStump_Predict64 h (?es ! i) l = Inr v \<and>
        v = (if Test f (?es ! i) then lookup64 (c64 h) l else Finite (- 1)) \<and>
        length (P64 (cells64 hp' p)) = length (P64 (cells64 hp p)) \<and>
        P64 (cells64 hp' p) ! i =
          fmul (P64 (cells64 hp p) ! i)
            (fdiv (fexp (fmul (Finite (if HasLabel (?es ! i) l then 1 else - 1)) v)) (zt64 h))"
      if l: "l \<in> set ?ls" and i: "i < length ?es" for l i
    proof -
      from ptr l obtain p where p: "D64 a l = Some p"
        by blast
      from E l p i obtain v where
        v: "DecisionStump_Predict64 h (?es ! i) l = Inr v" and
        w: "P64 (cells64 hp' p) ! i =
          fmul (P64 (cells64 hp p) ! i) (fdiv (fexp (fmul (hasLabel64 (?es ! i) l) v)) (zt64 h))"
        by blast
      from v obtain f where
        f: "Feature64 h = Some f" and
        vf: "v = (if Test f (?es ! i) then lookup64 (c64 h) l else Finite (- 1))"
        by (auto simp: DecisionStump_Predict64_def split: option.splits if_splits)
      have y: "hasLabel64 (?es ! i) l = Finite (if HasLabel (?es ! i) l then 1 else - 1)"
        by (simp add: hasLabel64_def)
      have "length (P64 (cells64 hp' p)) = length (P64 (cells64 hp p))"
        using E by blast
      with p f v vf w show ?thesis
        unfolding y by blast
    qed
    have frame: "cells64 hp' q = cells64 hp q" if "\<forall>l\<in>set ?ls. D64 a l \<noteq> Some q" for q
      using E that by blast
    have "Round64 hp a = Inr (a\<lparr>H64 := H64 a @ [h]\<rparr>, hp')"
      unfolding round by (simp add: hp')
    with upd frame have "\<exists>hp'. Round64 hp a = Inr (a\<lparr>H64 := H64 a @ [h]\<rparr>, hp') \<and>
        (\<forall>q. (\<forall>l\<in>set ?ls. D64 a l \<noteq> Some q) \<longrightarrow> cells64 hp' q = cells64 hp q) \<and>
        (\<forall>l\<in>set ?ls. \<forall>i<length ?es.
           \<exists>p f v. D64 a l = Some p \<and> Feature64 h = Some f \<and>
             DecisionStump_Predict64 h (?es ! i) l = Inr v \<and>
             v = (if Test f (?es ! i) then lookup64 (c64 h) l else Finite (- 1)) \<and>
             length (P64 (cells64 hp' p)) = length (P64 (cells64 hp p)) \<and>
             P64 (cells64 hp' p) ! i =
               fmul (P64 (cells64 hp p) ! i)
                 (fdiv (fexp (fmul (Finite (if HasLabel (?es ! i) l then 1 else - 1)) v)) (zt64 h)))"
      by blast
    then show ?thesis
      using h False by auto
  qed
qed

text \<open>The first input has two labels and \<open>zt = 2\<close>; the second one has two labels and
  \<open>zt = 0\<close>, and its round completes with every weight \<open>+Inf\<close>.\<close>

lemma untrained_AB_well_formed:
  "distinct (labels (Stumper64 untrained_AB))"
  "inj_on (D64 untrained_AB) (set (labels (Stumper64 untrained_AB)))"
  "has_weights heap_AB (D64 untrained_AB) (labels (Stumper64 untrained_AB))
     (length (examples (Stumper64 untrained_AB)))"
  "has_weights heap_AB (D64 untrained_AB) (labels (Stumper64 untrained_AB))
     (length (Examples64 untrained_AB))"
  by (simp_all add: has_weights_def untrained_AB_fields heap_AB_cells)

lemma untrained_AABB_well_formed:
  "distinct (labels (Stumper64 untrained_AABB))"
  "inj_on (D64 untrained_AABB) (set (labels (Stumper64 untrained_AABB)))"
  "has_weights heap_AABB (D64 untrained_AABB) (labels (Stumper64 untrained_AABB))
     (length (examples (Stumper64 untrained_AABB)))"
  "has_weights heap_AABB (D64 untrained_AABB) (labels (Stumper64 untrained_AABB))
     (length (Examples64 untrained_AABB))"
  by (simp_all add: has_weights_def untrained_AABB_fields heap_AABB_cells)

theorem Round64_reweights_witness:
  "(distinct (labels (Stumper64 untrained_AB)) \<and>
   inj_on (D64 untrained_AB) (set (labels (Stumper64 untrained_AB))) \<and>
   has_weights heap_AB (D64 untrained_AB) (labels (Stumper64 untrained_AB))
     (length (examples (Stumper64 untrained_AB))) \<and>
   has_weights heap_AB (D64 untrained_AB) (labels (Stumper64 untrained_AB))
     (length (Examples64 untrained_AB)) \<and>
   (\<exists>h. NewStump64 (Stumper64 untrained_AB) heap_AB (D64 untrained_AB) = Inr h \<and>
      (if Feature64 h = None \<and> labels (Stumper64 untrained_AB) \<noteq> [] \<and> Examples64 untrained_AB \<noteq> []
       then Round64 heap_AB untrained_AB = Inl NilDereference
       else \<exists>hp'. Round64 heap_AB untrained_AB = Inr (untrained_AB\<lparr>H64 := H64 untrained_AB @ [h]\<rparr>, hp') \<and>
              (\<forall>q. (\<forall>l\<in>set (labels (Stumper64 untrained_AB)). D64 untrained_AB l \<noteq> Some q) \<longrightarrow>
                 cells64 hp' q = cells64 heap_AB q) \<and>
              (\<forall>l\<in>set (labels (Stumper64 untrained_AB)). \<forall>i<length (Examples64 untrained_AB).
                 \<exists>p f v. D64 untrained_AB l = Some p \<and> Feature64 h = Some f \<and>
                   DecisionStump_Predict64 h (Examples64 untrained_AB ! i) l = Inr v \<and>
                   v = (if Test f (Examples64 untrained_AB ! i) then lookup64 (c64 h) l else Finite (- 1)) \<and>
                   length (P64 (cells64 hp' p)) = length (P64 (cells64 heap_AB p)) \<and>
                   P64 (cells64 hp' p) ! i =
                     fmul (P64 (cells64 heap_AB p) ! i)
                       (fdiv (fexp (fmul (Finite (if HasLabel (Examples64 untrained_AB ! i) l then 1 else - 1)) v))
                             (zt64 h))))) \<and>
   Round64 heap_AB untrained_AB =
     Inr (untrained_AB\<lparr>H64 :=
            [\<lparr>Feature64 = Some feature_has_A,
              c64 = [''A'' \<mapsto> Finite (0.5 * ln (3/2)), ''B'' \<mapsto> Finite (0.5 * ln (2/3))],
              zt64 = Finite 2\<rparr>]\<rparr>,
          heap_AB\<lparr>cells64 := (cells64 heap_AB)
            (0 := \<lparr>P64 = [Finite (1/2 * (exp (1 * (0.5 * ln (3/2))) / 2)),
                           Finite (1/2 * (exp (- 1 * - 1) / 2))]\<rparr>,
             Suc 0 := \<lparr>P64 = [Finite (1/2 * (exp (- 1 * (0.5 * ln (2/3))) / 2)),
                               Finite (1/2 * (exp (1 * - 1) / 2))]\<rparr>)\<rparr>)) \<and>
   (distinct (labels (Stumper64 untrained_AABB)) \<and>
   inj_on (D64 untrained_AABB) (set (labels (Stumper64 untrained_AABB))) \<and>
   has_weights heap_AABB (D64 untrained_AABB) (labels (Stumper64 untrained_AABB))
     (length (examples (Stumper64 untrained_AABB))) \<and>
   has_weights heap_AABB (D64 untrained_AABB) (labels (Stumper64 untrained_AABB))
     (length (Examples64 untrained_AABB)) \<and>
   (\<exists>h. NewStump64 (Stumper64 untrained_AABB) heap_AABB (D64 untrained_AABB) = Inr h \<and>
      (if Feature64 h = None \<and> labels (Stumper64 untrained_AABB) \<noteq> [] \<and> Examples64 untrained_AABB \<noteq> []
       then Round64 heap_AABB untrained_AABB = Inl NilDereference
       else \<exists>hp'. Round64 heap_AABB untrained_AABB = Inr (untrained_AABB\<lparr>H64 := H64 untrained_AABB @ [h]\<rparr>, hp') \<and>
              (\<forall>q. (\<forall>l\<in>set (labels (Stumper64 untrained_AABB)). D64 untrained_AABB l \<noteq> Some q) \<longrightarrow>
                 cells64 hp' q = cells64 heap_AABB q) \<and>
              (\<forall>l\<in>set (labels (Stumper64 untrained_AABB)). \<forall>i<length (Examples64 untrained_AABB).
                 \<exists>p f v. D64 untrained_AABB l = Some p \<and> Feature64 h = Some f \<and>
                   DecisionStump_Predict64 h (Examples64 untrained_AABB ! i) l = Inr v \<and>
                   v = (if Test f (Examples64 untrained_AABB ! i) then lookup64 (c64 h) l else Finite (- 1)) \<and>
                   length (P64 (cells64 hp' p)) = length (P64 (cells64 heap_AABB p)) \<and>
                   P64 (cells64 hp' p) ! i =
                     fmul (P64 (cells64 heap_AABB p) ! i)
                       (fdiv (fexp (fmul (Finite (if HasLabel (Examples64 untrained_AABB ! i) l then 1 else - 1)) v))
                             (zt64 h))))) \<and>
   Round64 heap_AABB untrained_AABB =
     Inr (untrained_AABB\<lparr>H64 :=
            [\<lparr>Feature64 = Some feature_has_A,
              c64 = [''A'' \<mapsto> Finite (0.5 * ln (3/2)), ''B'' \<mapsto> Finite (0.5 * ln (2/3))],
              zt64 = Finite 0\<rparr>]\<rparr>,
          heap_AABB\<lparr>cells64 := (cells64 heap_AABB)
            (0 := \<lparr>P64 = [PosInf, PosInf, PosInf, PosInf]\<rparr>,
             Suc 0 := \<lparr>P64 = [PosInf, PosInf, PosInf, PosInf]\<rparr>)\<rparr>))"
proof -
  note ab = untrained_AB_well_formed
  note aabb = untrained_AABB_well_formed
  show ?thesis
    by (rule conjI
          [OF conjI [OF ab(1) conjI [OF ab(2) conjI [OF ab(3) conjI [OF ab(4)
                conjI [OF Round64_reweights [OF ab] Round64_AB]]]]]
              conjI [OF aabb(1) conjI [OF aabb(2) conjI [OF aabb(3) conjI [OF aabb(4)
                conjI [OF Round64_reweights [OF aabb] Round64_AABB]]]]]])
qed

subsection \<open>The states of a training run with IEEE's special values\<close>

lemma alloc_uniform64_effect:
  assumes "alloc_uniform64 n ls (dm, hp) = (dm', hp')"
      and "distinct ls"
  shows "next_free64 hp \<le> next_free64 hp' \<and>
         (\<forall>q<next_free64 hp. cells64 hp' q = cells64 hp q) \<and>
         (\<forall>l. l \<notin> set ls \<longrightarrow> dm' l = dm l) \<and>
         (\<forall>l\<in>set ls. \<exists>p. dm' l = Some p \<and> next_free64 hp \<le> p \<and>
            cells64 hp' p = UniformDistribution64 n) \<and>
         inj_on dm' (set ls)"
  using assms
proof (induction ls arbitrary: dm hp)
  case Nil
  then show ?case by simp
next
  case (Cons a ls)
  define p0 where "p0 = next_free64 hp"
  define hp1 where
    "hp1 = hp\<lparr>cells64 := (cells64 hp)(p0 := UniformDistribution64 n), next_free64 := Suc p0\<rparr>"
  have rest: "alloc_uniform64 n ls (dm(a \<mapsto> p0), hp1) = (dm', hp')"
    using Cons.prems(1) by (simp add: alloc64_def p0_def hp1_def)
  have d: "distinct ls" "a \<notin> set ls"
    using Cons.prems(2) by simp_all
  note IH = Cons.IH [OF rest d(1)]
  have nf: "next_free64 hp \<le> next_free64 hp'"
    using IH by (simp add: hp1_def p0_def)
  have below: "cells64 hp' q = cells64 hp q" if "q < next_free64 hp" for q
    using IH that by (simp add: hp1_def p0_def)
  have out: "dm' l = dm l" if "l \<notin> set (a # ls)" for l
    using IH that by simp
  have head: "dm' a = Some p0" "cells64 hp' p0 = UniformDistribution64 n"
    using IH d(2) by (simp_all add: hp1_def)
  have tail: "\<exists>p. dm' l = Some p \<and> Suc p0 \<le> p \<and> cells64 hp' p = UniformDistribution64 n"
    if "l \<in> set ls" for l
    using IH that by (simp add: hp1_def)
  have "inj_on dm' (insert a (set ls))"
  proof (rule inj_onI)
    fix x y
    assume x: "x \<in> insert a (set ls)" and y: "y \<in> insert a (set ls)" and eq: "dm' x = dm' y"
    have inj: "inj_on dm' (set ls)"
      using IH by simp
    show "x = y"
    proof (cases "x = a")
      case True
      show ?thesis
      proof (cases "y = a")
        case True
        with \<open>x = a\<close> show ?thesis by simp
      next
        case False
        with y tail [of y] head(1) eq \<open>x = a\<close> show ?thesis by auto
      qed
    next
      case False
      show ?thesis
      proof (cases "y = a")
        case True
        with x False tail [of x] head(1) eq show ?thesis by auto
      next
        case ny: False
        with x y False inj eq show ?thesis by (auto dest: inj_onD)
      qed
    qed
  qed
  moreover have "\<forall>l\<in>set (a # ls). \<exists>p. dm' l = Some p \<and> next_free64 hp \<le> p \<and>
      cells64 hp' p = UniformDistribution64 n"
  proof
    fix l assume "l \<in> set (a # ls)"
    then consider "l = a" | "l \<in> set ls"
      by auto
    then show "\<exists>p. dm' l = Some p \<and> next_free64 hp \<le> p \<and> cells64 hp' p = UniformDistribution64 n"
    proof cases
      case 1
      then show ?thesis
        using head by (simp add: p0_def)
    next
      case 2
      from tail [OF 2] obtain p where
        "dm' l = Some p" "Suc p0 \<le> p" "cells64 hp' p = UniformDistribution64 n"
        by blast
      then show ?thesis
        by (auto simp: p0_def)
    qed
  qed
  ultimately show ?case
    using nf below out by simp
qed

lemma NewAdaBoostMH64_well_formed:
  assumes "NewAdaBoostMH64 hp es learner = (a, hp')"
      and "distinct (labels learner)"
  shows "Examples64 a = es \<and> Stumper64 a = learner \<and> H64 a = [] \<and>
         inj_on (D64 a) (set (labels learner)) \<and>
         has_weights hp' (D64 a) (labels learner) (length es)"
proof -
  from assms(1) obtain dm where
    al: "alloc_uniform64 (length es) (labels learner) (Map.empty, hp) = (dm, hp')" and
    a: "a = \<lparr>Examples64 = es, Stumper64 = learner, D64 = dm, H64 = []\<rparr>"
    by (auto simp: NewAdaBoostMH64_def split: prod.splits)
  note E = alloc_uniform64_effect [OF al assms(2)]
  have "has_weights hp' dm (labels learner) (length es)"
    unfolding has_weights_iff using E by (auto simp: UniformDistribution64_def)
  then show ?thesis
    using E a by simp
qed

lemma reweight_labels64_lengths:
  assumes "reweight_labels64 h dm es ls hp = Inr hp'"
  shows "length (P64 (cells64 hp' q)) = length (P64 (cells64 hp q))"
  using assms
proof (induction ls arbitrary: hp)
  case Nil
  then show ?case by simp
next
  case (Cons a ls)
  from Cons.prems obtain hp1 where
    first: "reweight_examples64 h dm a 0 es hp = Inr hp1" and
    rest: "reweight_labels64 h dm es ls hp1 = Inr hp'"
    by (auto split: sum.splits)
  show ?case
    using Cons.IH [OF rest] reweight_examples64_effect [OF first] by simp
qed

lemma Round64_keeps_well_formed:
  assumes "Round64 hp a = Inr (a', hp')"
      and "has_weights hp (D64 a) (labels (Stumper64 a)) n"
  shows "Examples64 a' = Examples64 a \<and> Stumper64 a' = Stumper64 a \<and> D64 a' = D64 a \<and>
         has_weights hp' (D64 a') (labels (Stumper64 a')) n"
proof -
  from assms(1) obtain h where
    rw: "reweight_labels64 h (D64 a) (Examples64 a) (labels (Stumper64 a)) hp = Inr hp'" and
    a': "a' = a\<lparr>H64 := H64 a @ [h]\<rparr>"
    by (auto simp: Round64_def split: sum.splits)
  have "has_weights hp' (D64 a) (labels (Stumper64 a)) n"
    using assms(2) unfolding has_weights_iff
    by (simp add: reweight_labels64_lengths [OF rw])
  then show ?thesis
    by (simp add: a')
qed

subsection \<open>The two embeddings agree where the first returns\<close>

text \<open>Where the first embedding returns, no operation has left the real numbers, and
  the second embedding returns the same stump and the same state.\<close>

lemma index64_Finite:
  "index64 (map Finite xs) i = (case index xs i of Inl err \<Rightarrow> Inl err | Inr x \<Rightarrow> Inr (Finite x))"
  by (auto simp: index64_def index_def)

lemma lookup64_to64: "lookup64 (map_to64 w) k = Finite (lookup w k)"
  by (simp add: lookup64_def lookup_def map_to64_def split: option.splits)

lemma map_to64_update: "(map_to64 w)(k \<mapsto> Finite x) = map_to64 (w(k \<mapsto> x))"
  by (rule ext) (simp add: map_to64_def)

lemma map_to64_empty: "map_to64 Map.empty = Map.empty"
  by (rule ext) (simp add: map_to64_def)

lemma init_w64_to64: "init_w64 f ls (map_to64 w) = map_to64 (init_w f ls w)"
  by (induction ls arbitrary: w) (simp_all add: map_to64_update)

lemma P64_heap_to64: "P64 (cells64 (heap_to64 hp) p) = map Finite (P (cells hp p))"
  by (simp add: heap_to64_def)

lemma add_w_labels64_to64:
  assumes "add_w_labels hp ds f i e ls w = Inr w'"
  shows "add_w_labels64 (heap_to64 hp) ds f i e ls (map_to64 w) = Inr (map_to64 w')"
  using assms
proof (induction ls arbitrary: w)
  case Nil
  then show ?case by simp
next
  case (Cons a ls)
  from Cons.prems obtain p d where
    p: "ds a = Some p" and d: "index (P (cells hp p)) (int i) = Inr d" and
    rest: "add_w_labels hp ds f i e ls
        (w(Key (HasLabel e a) (Some f) a \<mapsto> lookup w (Key (HasLabel e a) (Some f) a) + d)) = Inr w'"
    by (auto split: option.splits sum.splits)
  have "add_w_labels64 (heap_to64 hp) ds f i e (a # ls) (map_to64 w) =
      add_w_labels64 (heap_to64 hp) ds f i e ls
        (map_to64 (w(Key (HasLabel e a) (Some f) a \<mapsto> lookup w (Key (HasLabel e a) (Some f) a) + d)))"
    using p d by (simp add: P64_heap_to64 index64_Finite lookup64_to64 map_to64_update)
  also have "\<dots> = Inr (map_to64 w')"
    by (rule Cons.IH [OF rest])
  finally show ?case .
qed

lemma add_w_examples64_to64:
  assumes "add_w_examples hp ds f ls i es w = Inr w'"
  shows "add_w_examples64 (heap_to64 hp) ds f ls i es (map_to64 w) = Inr (map_to64 w')"
  using assms
proof (induction es arbitrary: i w)
  case Nil
  then show ?case by simp
next
  case (Cons e es)
  show ?case
  proof (cases "Test f e")
    case False
    with Cons.prems have "add_w_examples hp ds f ls (Suc i) es w = Inr w'"
      by simp
    from Cons.IH [OF this] show ?thesis
      using False by simp
  next
    case True
    with Cons.prems obtain w1 where
      w1: "add_w_labels hp ds f i e ls w = Inr w1" and
      rest: "add_w_examples hp ds f ls (Suc i) es w1 = Inr w'"
      by (auto split: sum.splits)
    have "add_w_examples64 (heap_to64 hp) ds f ls i (e # es) (map_to64 w) =
        add_w_examples64 (heap_to64 hp) ds f ls (Suc i) es (map_to64 w1)"
      using True by (simp add: add_w_labels64_to64 [OF w1])
    also have "\<dots> = Inr (map_to64 w')"
      by (rule Cons.IH [OF rest])
    finally show ?thesis .
  qed
qed

lemma compute_w64_to64:
  assumes "compute_w hp ds ls es fs w = Inr w'"
  shows "compute_w64 (heap_to64 hp) ds ls es fs (map_to64 w) = Inr (map_to64 w')"
  using assms
proof (induction fs arbitrary: w)
  case Nil
  then show ?case by simp
next
  case (Cons f fs)
  from Cons.prems obtain w1 where
    w1: "add_w_examples hp ds f ls 0 es (init_w f ls w) = Inr w1" and
    rest: "compute_w hp ds ls es fs w1 = Inr w'"
    by (auto split: sum.splits)
  have "compute_w64 (heap_to64 hp) ds ls es (f # fs) (map_to64 w) =
      compute_w64 (heap_to64 hp) ds ls es fs (map_to64 w1)"
    by (simp add: init_w64_to64 add_w_examples64_to64 [OF w1])
  also have "\<dots> = Inr (map_to64 w')"
    by (rule Cons.IH [OF rest])
  finally show ?case .
qed

lemma sum_zFeature64_to64:
  assumes "sum_zFeature w f ls z = Inr z'"
  shows "sum_zFeature64 (map_to64 w) f ls (Finite z) = Finite z'"
  using assms
proof (induction ls arbitrary: z)
  case Nil
  then show ?case by simp
next
  case (Cons a ls)
  define x where "x = lookup w (Key True (Some f) a) * lookup w (Key False (Some f) a)"
  from Cons.prems have x: "\<not> x < 0" and rest: "sum_zFeature w f ls (z + sqrt x) = Inr z'"
    by (auto simp: Let_def x_def split: if_splits)
  have "sum_zFeature64 (map_to64 w) f (a # ls) (Finite z) =
      sum_zFeature64 (map_to64 w) f ls (Finite (z + sqrt x))"
    using x by (simp add: lookup64_to64 x_def)
  also have "\<dots> = Finite z'"
    by (rule Cons.IH [OF rest])
  finally show ?case .
qed

lemma select_feature64_to64:
  assumes "select_feature w ls fs (fMin, zMin, z) = Inr (fMin', zMin', z')"
  shows "select_feature64 (map_to64 w) ls fs (fMin, Finite zMin, Finite z) =
         (fMin', Finite zMin', Finite z')"
  using assms
proof (induction fs arbitrary: fMin zMin z)
  case Nil
  then show ?case by simp
next
  case (Cons f fs)
  from Cons.prems obtain zFeature where
    zf: "sum_zFeature w f ls 0 = Inr zFeature" and
    rest: "(if zFeature < zMin then select_feature w ls fs (Some f, zFeature, z + zFeature)
            else select_feature w ls fs (fMin, zMin, z + zFeature)) = Inr (fMin', zMin', z')"
    by (auto split: sum.splits)
  have zf64: "sum_zFeature64 (map_to64 w) f ls (Finite 0) = Finite zFeature"
    by (rule sum_zFeature64_to64 [OF zf])
  show ?case
  proof (cases "zFeature < zMin")
    case True
    with rest have r: "select_feature w ls fs (Some f, zFeature, z + zFeature) = Inr (fMin', zMin', z')"
      by simp
    have "select_feature64 (map_to64 w) ls (f # fs) (fMin, Finite zMin, Finite z) =
        select_feature64 (map_to64 w) ls fs (Some f, Finite zFeature, Finite (z + zFeature))"
      using True by (simp add: zf64 Let_def)
    also have "\<dots> = (fMin', Finite zMin', Finite z')"
      by (rule Cons.IH [OF r])
    finally show ?thesis .
  next
    case False
    with rest have r: "select_feature w ls fs (fMin, zMin, z + zFeature) = Inr (fMin', zMin', z')"
      by simp
    have "select_feature64 (map_to64 w) ls (f # fs) (fMin, Finite zMin, Finite z) =
        select_feature64 (map_to64 w) ls fs (fMin, Finite zMin, Finite (z + zFeature))"
      using False by (simp add: zf64 Let_def)
    also have "\<dots> = (fMin', Finite zMin', Finite z')"
      by (rule Cons.IH [OF r])
    finally show ?thesis .
  qed
qed

lemma confidences64_to64:
  assumes "confidences w fMin ls cs = Inr cs'"
  shows "confidences64 (map_to64 w) fMin ls (map_to64 cs) = map_to64 cs'"
  using assms
proof (induction ls arbitrary: cs)
  case Nil
  then show ?case by simp
next
  case (Cons a ls)
  define num where "num = 1 + lookup w (Key True fMin a)"
  define den where "den = 1 + lookup w (Key False fMin a)"
  from Cons.prems have q: "den \<noteq> 0" "\<not> num / den \<le> 0" and
    rest: "confidences w fMin ls (cs(a \<mapsto> 0.5 * ln (num / den))) = Inr cs'"
    by (auto simp: Let_def num_def den_def split: if_splits)
  have pos: "0 < num / den"
    using q(2) by simp
  have "fdiv (fadd (Finite 1) (Finite (lookup w (Key True fMin a))))
             (fadd (Finite 1) (Finite (lookup w (Key False fMin a)))) = Finite (num / den)"
    using q(1) by (simp add: num_def den_def)
  moreover have "flog (Finite (num / den)) = Finite (ln (num / den))"
  proof -
    have "\<not> num / den < 0" "num / den \<noteq> 0"
      using pos by auto
    then show ?thesis
      by (simp only: flog.simps if_False)
  qed
  moreover have "fmul (Finite 0.5) (Finite (ln (num / den))) = Finite (0.5 * ln (num / den))"
    by simp
  ultimately have "confidences64 (map_to64 w) fMin (a # ls) (map_to64 cs) =
      confidences64 (map_to64 w) fMin ls (map_to64 (cs(a \<mapsto> 0.5 * ln (num / den))))"
    by (simp only: confidences64.simps lookup64_to64 map_to64_update)
  also have "\<dots> = map_to64 cs'"
    by (rule Cons.IH [OF rest])
  finally show ?case .
qed

lemma NewStump64_to64:
  assumes "NewStump st hp ds = Inr h"
  shows "NewStump64 st (heap_to64 hp) ds = Inr (stump_to64 h)"
proof -
  from assms obtain w fMin zMin z cs where
    w: "compute_w hp ds (labels st) (examples st) (features st) Map.empty = Inr w" and
    sel: "select_feature w (labels st) (features st) (None, MaxFloat64, 0) = Inr (fMin, zMin, z)" and
    cs: "confidences w fMin (labels st) Map.empty = Inr cs" and
    h: "h = \<lparr>Feature = fMin, c = cs, zt = z * 2\<rparr>"
    by (auto simp: NewStump_def split: sum.splits prod.splits)
  have 1: "compute_w64 (heap_to64 hp) ds (labels st) (examples st) (features st) Map.empty =
      Inr (map_to64 w)"
    using compute_w64_to64 [OF w] by (simp only: map_to64_empty)
  have 2: "select_feature64 (map_to64 w) (labels st) (features st)
      (None, Finite MaxFloat64, Finite 0) = (fMin, Finite zMin, Finite z)"
    by (rule select_feature64_to64 [OF sel])
  have 3: "confidences64 (map_to64 w) fMin (labels st) Map.empty = map_to64 cs"
    using confidences64_to64 [OF cs] by (simp only: map_to64_empty)
  show ?thesis
    by (simp add: NewStump64_def 1 2 3 stump_to64_def h)
qed

lemma DecisionStump_Predict64_to64:
  assumes "DecisionStump_Predict h e l = Inr v"
  shows "DecisionStump_Predict64 (stump_to64 h) e l = Inr (Finite v)"
  using assms
  by (auto simp: DecisionStump_Predict64_def DecisionStump_Predict_def stump_to64_def
      lookup64_to64 split: option.splits if_splits)

lemma heap_to64_update:
  "(heap_to64 hp)\<lparr>cells64 := (cells64 (heap_to64 hp))
     (p := (cells64 (heap_to64 hp) p)\<lparr>P64 := (P64 (cells64 (heap_to64 hp) p))[i := Finite x]\<rparr>)\<rparr> =
   heap_to64 (hp\<lparr>cells := (cells hp)(p := (cells hp p)\<lparr>P := (P (cells hp p))[i := x]\<rparr>)\<rparr>)"
  by (simp add: heap_to64_def map_update fun_eq_iff)

lemma reweight_examples64_to64:
  assumes "reweight_examples h dm l i es hp = Inr hp'"
  shows "reweight_examples64 (stump_to64 h) dm l i es (heap_to64 hp) = Inr (heap_to64 hp')"
  using assms
proof (induction es arbitrary: i hp)
  case Nil
  then show ?case by simp
next
  case (Cons e es)
  from Cons.prems obtain p d v where
    p: "dm l = Some p" and d: "index (P (cells hp p)) (int i) = Inr d" and
    v: "DecisionStump_Predict h e l = Inr v" and z: "zt h \<noteq> 0" and
    rest: "reweight_examples h dm l (Suc i) es
        (hp\<lparr>cells := (cells hp)(p := (cells hp p)\<lparr>P := (P (cells hp p))
           [i := d * (exp (hasLabel e l * v) / zt h)]\<rparr>)\<rparr>) = Inr hp'"
    by (auto split: option.splits sum.splits if_splits)
  have d64: "index64 (P64 (cells64 (heap_to64 hp) p)) (int i) = Inr (Finite d)"
    using d by (simp add: P64_heap_to64 index64_Finite)
  have v64: "DecisionStump_Predict64 (stump_to64 h) e l = Inr (Finite v)"
    by (rule DecisionStump_Predict64_to64 [OF v])
  have new: "fmul (Finite d) (fdiv (fexp (fmul (hasLabel64 e l) (Finite v))) (zt64 (stump_to64 h))) =
      Finite (d * (exp (hasLabel e l * v) / zt h))"
    using z by (simp add: hasLabel64_def hasLabel_def stump_to64_def)
  have "reweight_examples64 (stump_to64 h) dm l i (e # es) (heap_to64 hp) =
      reweight_examples64 (stump_to64 h) dm l (Suc i) es
        (heap_to64 (hp\<lparr>cells := (cells hp)(p := (cells hp p)\<lparr>P := (P (cells hp p))
           [i := d * (exp (hasLabel e l * v) / zt h)]\<rparr>)\<rparr>))"
    by (simp only: reweight_examples64.simps p d64 v64 new heap_to64_update
        option.case sum.case)
  also have "\<dots> = Inr (heap_to64 hp')"
    by (rule Cons.IH [OF rest])
  finally show ?case .
qed

lemma reweight_labels64_to64:
  assumes "reweight_labels h dm es ls hp = Inr hp'"
  shows "reweight_labels64 (stump_to64 h) dm es ls (heap_to64 hp) = Inr (heap_to64 hp')"
  using assms
proof (induction ls arbitrary: hp)
  case Nil
  then show ?case by simp
next
  case (Cons a ls)
  from Cons.prems obtain hp1 where
    first: "reweight_examples h dm a 0 es hp = Inr hp1" and
    rest: "reweight_labels h dm es ls hp1 = Inr hp'"
    by (auto split: sum.splits)
  have "reweight_labels64 (stump_to64 h) dm es (a # ls) (heap_to64 hp) =
      reweight_labels64 (stump_to64 h) dm es ls (heap_to64 hp1)"
    by (simp add: reweight_examples64_to64 [OF first])
  also have "\<dots> = Inr (heap_to64 hp')"
    by (rule Cons.IH [OF rest])
  finally show ?case .
qed

lemma Round64_extends_Round:
  assumes "Round hp a = Inr (a', hp')"
  shows "Round64 (heap_to64 hp) (AdaBoostMH_to64 a) = Inr (AdaBoostMH_to64 a', heap_to64 hp')"
proof -
  from assms obtain h where
    h: "NewStump (Stumper a) hp (D a) = Inr h" and
    rw: "reweight_labels h (D a) (Examples a) (labels (Stumper a)) hp = Inr hp'" and
    a': "a' = a\<lparr>H := H a @ [h]\<rparr>"
    by (auto simp: Round_def split: sum.splits)
  have "NewStump64 (Stumper64 (AdaBoostMH_to64 a)) (heap_to64 hp) (D64 (AdaBoostMH_to64 a)) =
      Inr (stump_to64 h)"
    using NewStump64_to64 [OF h] by (simp add: AdaBoostMH_to64_def)
  moreover have "reweight_labels64 (stump_to64 h) (D64 (AdaBoostMH_to64 a))
      (Examples64 (AdaBoostMH_to64 a)) (labels (Stumper64 (AdaBoostMH_to64 a))) (heap_to64 hp) =
      Inr (heap_to64 hp')"
    using reweight_labels64_to64 [OF rw] by (simp add: AdaBoostMH_to64_def)
  moreover have "(AdaBoostMH_to64 a)\<lparr>H64 := H64 (AdaBoostMH_to64 a) @ [stump_to64 h]\<rparr> =
      AdaBoostMH_to64 a'"
    by (simp add: AdaBoostMH_to64_def a')
  ultimately show ?thesis
    by (simp add: Round64_def)
qed

end
